theory Spec2Isabelle
  imports Main "HOL-Library.Word"
begin

section \<open>udp\_cam\_libcamera\_gst.cpp: the capture-to-encoder bridge\<close>

text \<open>
  The program copies every completed libcamera frame into one global region
  (\<open>frame\<close>, \<open>bytes_used\<close>) and, from a GLib timeout firing every \<open>1000 / FPS\<close>
  milliseconds, wraps that region into a GstBuffer stamped with a running timestamp and
  hands it to the pipeline's appsrc.

  The embedding is sequential: one run of \<open>requestComplete\<close> and one run of
  \<open>push_frame\<close> are each taken as a single step. Everything the program does to the
  outside (calls into libcamera, GStreamer, GLib and libc, and what it prints) is
  appended to a trace of actions, in program order.
\<close>

subsection \<open>Machine types and constants\<close>

type_synonym u8 = "8 word"
type_synonym u32 = "32 word"
type_synonym u64 = "64 word"

text \<open>\<^verbatim>\<open>#define FPS 30\<close>; GStreamer's \<open>GST_SECOND\<close> is \<open>10^9\<close> nanoseconds.\<close>

definition FPS :: nat where
  "FPS = 30"

definition GST_SECOND :: nat where
  "GST_SECOND = 1000000000"

definition G_MAXUINT64 :: nat where
  "G_MAXUINT64 = 2 ^ 64 - 1"

text \<open>
  GStreamer's \<open>gst_util_uint64_scale_int (val, num, denom)\<close>: \<open>val * num / denom\<close>
  rounded down, computed without intermediate overflow, \<open>G_MAXUINT64\<close> when the
  result does not fit (or when \<open>denom\<close> is not positive).
\<close>

definition gst_util_uint64_scale_int :: "u64 \<Rightarrow> nat \<Rightarrow> nat \<Rightarrow> u64" where
  "gst_util_uint64_scale_int val num denom =
     (if denom = 0 then word_of_nat G_MAXUINT64
      else if unat val * num div denom > G_MAXUINT64 then word_of_nat G_MAXUINT64
      else word_of_nat (unat val * num div denom))"

subsection \<open>Data the program exchanges with libcamera and GStreamer\<close>

datatype GstFlowReturn =
    GST_FLOW_OK
  | GST_FLOW_NOT_LINKED
  | GST_FLOW_FLUSHING
  | GST_FLOW_EOS
  | GST_FLOW_NOT_NEGOTIATED
  | GST_FLOW_ERROR
  | GST_FLOW_NOT_SUPPORTED

record GstBuffer =
  payload :: "u8 list"
  pts :: u64
  duration :: u64

datatype request_status = RequestPending | RequestComplete | RequestCancelled

text \<open>
  One plane of a completed FrameBuffer as \<open>requestComplete\<close> sees it:
  \<open>buffer->metadata().planes()[i].bytesused\<close> (an \<open>unsigned int\<close>) and the span
  \<open>image->data(i)\<close> that \<open>Image::fromFrameBuffer\<close> mapped for it. The class
  \<open>Image\<close> comes from \<open>image.h\<close>, which is not among the sources: the mapped span
  is taken as given.
\<close>

record plane =
  bytesused :: u32
  plane_data :: "u8 list"

type_synonym frame_buffer = "plane list"

record request =
  req_status :: request_status
  req_buffers :: "frame_buffer list"

datatype gst_state = GST_STATE_NULL | GST_STATE_PLAYING

text \<open>
  The pipeline description that \<open>main\<close> formats with \<open>snprintf\<close>: the text written
  into \<open>char pipeline_desc[1024]\<close>, and the caps of the appsrc that the text states.
  Only the destination host and port are holes of the format string; the caps are literal
  text.
\<close>

record appsrc_caps =
  caps_format :: string
  caps_width :: nat
  caps_height :: nat
  caps_framerate :: "nat \<times> nat"

record pipeline_desc =
  src_caps :: appsrc_caps
  desc_text :: string

datatype action =
    Malloc nat
  | Memcpy_to_frame nat
  | Cerr_payload_larger u32 nat
  | Request_reuse
  | Camera_queueRequest
  | Push_buffer GstBuffer GstFlowReturn
  | Print_failed_push GstFlowReturn
  | Gst_app_src_end_of_stream
  | Cerr string
  | Cout string
  | Cout_configuration u32 u32
  | Cout_pipeline pipeline_desc
  | Gst_object_unref_appsrc
  | Gst_object_unref_pipeline
  | CameraManager_start
  | CameraManager_stop
  | CameraManager_get
  | Camera_acquire
  | Camera_release
  | Camera_generateConfiguration
  | Config_validate
  | Camera_configure
  | Allocator_allocate
  | Allocator_free
  | Camera_createRequest
  | Request_addBuffer
  | Connect_requestCompleted
  | Camera_start
  | Camera_stop
  | Gst_init
  | Gst_parse_launch pipeline_desc
  | G_error_free
  | Gst_bin_get_by_name string
  | Gst_element_set_state gst_state
  | G_timeout_add nat
  | G_main_loop_new
  | G_main_loop_run

text \<open>
  What the embedding treats as undefined behaviour of the C++ program: a \<open>memcpy\<close>
  through a null pointer, one that reads past the end of its source, and one that writes
  past the end of the region \<open>malloc\<close> returned.
\<close>

datatype fault = Null_pointer | Read_out_of_bounds | Write_out_of_bounds

datatype sig_disposition = SIG_DFL | Handler

subsection \<open>The globals\<close>

text \<open>
  \<open>frame\<close> is \<open>None\<close> for \<open>nullptr\<close> and \<open>Some bs\<close> for a region of
  \<open>length bs\<close> bytes obtained from \<open>malloc\<close>. \<open>timestamp\<close> is the function-local
  \<open>static guint64\<close> of \<open>push_frame\<close>. \<open>g_appsrc\<close> holds whether the pointer is
  non-null. \<open>bytes_used\<close> is a \<open>size_t\<close> that only ever receives \<open>unsigned int\<close>
  values.

  The last six fields are not variables of the program: the actions so far, a fault once
  one has happened (the run stops there), whether the GLib timeout source that calls
  \<open>push_frame\<close> is still installed, whether the GLib main loop is running, what the
  process does on SIGINT, and whether a signal has ended the process.
\<close>

record state =
  frame :: "u8 list option"
  bytes_used :: nat
  timestamp :: u64
  width :: u32
  height :: u32
  g_running :: bool
  g_appsrc :: bool
  trace :: "action list"
  fault :: "fault option"
  timeout_source :: bool
  is_running :: bool
  sigint_disposition :: sig_disposition
  killed :: bool

definition initial_state :: state where
  "initial_state =
     \<lparr>frame = None, bytes_used = 0, timestamp = 0, width = 800, height = 600,
      g_running = True, g_appsrc = False, trace = [], fault = None,
      timeout_source = False, is_running = False, sigint_disposition = SIG_DFL,
      killed = False\<rparr>"

definition act :: "action \<Rightarrow> state \<Rightarrow> state" where
  "act a s = s\<lparr>trace := trace s @ [a]\<rparr>"

definition acts :: "action list \<Rightarrow> state \<Rightarrow> state" where
  "acts as s = s\<lparr>trace := trace s @ as\<rparr>"

subsection \<open>push\_frame\<close>

text \<open>
  \<open>push_frame r s\<close>: one call of the timeout callback in state \<open>s\<close>, where \<open>r\<close> is
  what the appsrc answers to \<open>push-buffer\<close>. The result pairs the callback's
  \<open>gboolean\<close> with the new state. \<open>gst_buffer_new_allocate\<close> is taken to succeed.
\<close>

definition push_frame :: "GstFlowReturn \<Rightarrow> state \<Rightarrow> bool \<times> state" where
  "push_frame r s =
     (case frame s of
        None \<Rightarrow> (True, s)
      | Some f \<Rightarrow>
          if bytes_used s > length f then (False, s\<lparr>fault := Some Read_out_of_bounds\<rparr>)
          else
            let d = gst_util_uint64_scale_int 1 GST_SECOND FPS;
                buffer = \<lparr>payload = take (bytes_used s) f, pts = timestamp s, duration = d\<rparr>;
                s1 = s\<lparr>timestamp := timestamp s + d\<rparr>;
                s2 = act (Push_buffer buffer r) s1
            in if r \<noteq> GST_FLOW_OK then (False, act (Print_failed_push r) s2)
               else (True, s2))"

subsection \<open>requestComplete\<close>

text \<open>
  \<open>memcpy (frame, data.data (), n)\<close>. The call is made whatever \<open>n\<close> is, and is
  recorded. When it stays inside both regions, the first \<open>n\<close> bytes of the frame
  region are replaced and the rest of the region keeps what it held. When it reads past
  the source or writes past the frame region, what the region and the memory behind it
  hold afterwards is undefined: the fault is recorded and the run ends there.
\<close>

definition memcpy_to_frame :: "u8 list \<Rightarrow> nat \<Rightarrow> state \<Rightarrow> state" where
  "memcpy_to_frame src n s =
     (let s1 = act (Memcpy_to_frame n) s
      in case frame s of
           None \<Rightarrow> if n = 0 then s1 else s1\<lparr>fault := Some Null_pointer\<rparr>
         | Some f \<Rightarrow>
             if n > length src then s1\<lparr>fault := Some Read_out_of_bounds\<rparr>
             else if n > length f then s1\<lparr>fault := Some Write_out_of_bounds\<rparr>
             else s1\<lparr>frame := Some (take n src @ drop n f)\<rparr>)"

text \<open>
  The body of the loop over the planes. \<open>clamped_count\<close> is
  \<open>std::min<unsigned int> (bytesused, data.size ())\<close>, which
  converts the \<open>size_t\<close> size to \<open>unsigned int\<close> first; the comparison
  \<open>bytesused > data.size ()\<close> is made in \<open>size_t\<close>. \<open>malloc\<close> is taken to succeed and
  to return a non-null pointer also for size 0; the fresh region's contents are
  indeterminate and are overwritten completely by the \<open>memcpy\<close> that follows.
\<close>

definition clamped_count :: "plane \<Rightarrow> nat" where
  "clamped_count p = min (unat (bytesused p)) (length (plane_data p) mod 2 ^ 32)"

definition publish_plane :: "plane \<Rightarrow> state \<Rightarrow> state" where
  "publish_plane p s =
     (if fault s \<noteq> None then s
      else
        let n = clamped_count p;
            s1 = s\<lparr>bytes_used := n\<rparr>;
            s2 = (if unat (bytesused p) > length (plane_data p)
                  then act (Cerr_payload_larger (bytesused p) (length (plane_data p))) s1
                  else s1);
            s3 = (if frame s2 = None
                  then act (Malloc n) (s2\<lparr>frame := Some (replicate n 0)\<rparr>)
                  else s2)
        in memcpy_to_frame (plane_data p) n s3)"

definition publish_buffer :: "frame_buffer \<Rightarrow> state \<Rightarrow> state" where
  "publish_buffer b s = fold publish_plane b s"

definition requestComplete :: "request \<Rightarrow> state \<Rightarrow> state" where
  "requestComplete req s =
     (if req_status req \<noteq> RequestComplete then s
      else
        let s1 = fold publish_buffer (req_buffers req) s
        in if fault s1 \<noteq> None then s1
           else act Camera_queueRequest (act Request_reuse s1))"

subsection \<open>sigint\_handler\<close>

definition sigint_handler :: "state \<Rightarrow> state" where
  "sigint_handler s =
     (let s1 = s\<lparr>g_running := False\<rparr>
      in if g_appsrc s1 then act Gst_app_src_end_of_stream s1 else s1)"

subsection \<open>The timeout source, the completion signal and SIGINT\<close>

text \<open>
  What can happen to the process once \<open>main\<close> has reached \<open>g_main_loop_run\<close>:
  the timeout installed by \<open>g_timeout_add\<close> fires (the appsrc will answer the
  \<open>push-buffer\<close> with the given status), libcamera completes a request and emits
  \<open>requestCompleted\<close>, or the operator sends SIGINT.
\<close>

datatype event = Tick GstFlowReturn | RequestCompleted request | SIGINT

text \<open>
  GLib calls a timeout callback again and again until it returns \<open>FALSE\<close>, then
  destroys the source. A signal whose disposition is the default one ends the process.
\<close>

definition dispatch :: "event \<Rightarrow> state \<Rightarrow> state" where
  "dispatch ev s =
     (case ev of
        Tick r \<Rightarrow>
          if timeout_source s
          then (case push_frame r s of (continue, s1) \<Rightarrow> s1\<lparr>timeout_source := continue\<rparr>)
          else s
      | RequestCompleted req \<Rightarrow> requestComplete req s
      | SIGINT \<Rightarrow>
          (case sigint_disposition s of
             SIG_DFL \<Rightarrow> s\<lparr>killed := True\<rparr>
           | Handler \<Rightarrow> sigint_handler s))"

datatype loop_exit = Returned | Blocked | Signalled | Faulted

text \<open>
  \<open>g_main_loop_run\<close> iterates the main context while the loop's running flag is set;
  only \<open>g_main_loop_quit\<close> clears the flag. \<open>Blocked\<close> is the loop waiting for the
  next event when the given events are used up.
\<close>

fun main_loop_iterate :: "event list \<Rightarrow> state \<Rightarrow> loop_exit \<times> state" where
  "main_loop_iterate [] s = (if is_running s then Blocked else Returned, s)"
| "main_loop_iterate (ev # evs) s =
     (if \<not> is_running s then (Returned, s)
      else
        let s1 = dispatch ev s
        in if killed s1 then (Signalled, s1)
           else if fault s1 \<noteq> None then (Faulted, s1)
           else main_loop_iterate evs s1)"

definition g_main_loop_run :: "event list \<Rightarrow> state \<Rightarrow> loop_exit \<times> state" where
  "g_main_loop_run evs s = main_loop_iterate evs (act G_main_loop_run (s\<lparr>is_running := True\<rparr>))"

subsection \<open>main\<close>

text \<open>
  What the environment answers to \<open>main\<close>: the command line, the results of the
  libcamera and GStreamer calls whose failure \<open>main\<close> checks, the size the validated
  stream configuration holds, and, for each buffer of the pool, whether
  \<open>createRequest\<close> and \<open>addBuffer\<close> succeed.
\<close>

datatype config_status = Valid | Adjusted | Invalid

record env =
  argc :: nat
  dest_ip :: string
  dest_port :: int
  manager_start_ok :: bool
  n_cameras :: nat
  get_ok :: bool
  acquire_ok :: bool
  generate_ok :: bool
  validate_status :: config_status
  cfg_width :: u32
  cfg_height :: u32
  allocate_results :: "bool list"
  pool :: "(bool \<times> bool) list"
  camera_start_ok :: bool
  parse_launch_ok :: bool
  parse_error_set :: bool
  get_by_name_ok :: bool

definition EXIT_FAILURE :: nat where
  "EXIT_FAILURE = 1"

datatype outcome = Exited nat | Running | Killed_by_signal | Crashed

text \<open>The loop \<open>for (auto &cfg : *config)\<close> over \<open>allocator.allocate\<close>; false when one fails.\<close>

fun allocate_all :: "bool list \<Rightarrow> state \<Rightarrow> bool \<times> state" where
  "allocate_all [] s = (True, s)"
| "allocate_all (ok # oks) s =
     (if ok then allocate_all oks (act Allocator_allocate s)
      else (False, act Allocator_allocate s))"

text \<open>The loop that builds one request per buffer; the number of requests kept is returned.\<close>

fun create_requests :: "(bool \<times> bool) list \<Rightarrow> state \<Rightarrow> nat \<times> state" where
  "create_requests [] s = (0, s)"
| "create_requests ((created, added) # bufs) s =
     (if \<not> created
      then create_requests bufs (acts [Camera_createRequest, Cerr ''Failed to create request''] s)
      else if \<not> added
      then create_requests bufs
             (acts [Camera_createRequest, Request_addBuffer, Cerr ''Failed to add buffer''] s)
      else (case create_requests bufs (acts [Camera_createRequest, Request_addBuffer] s) of
              (n, s1) \<Rightarrow> (Suc n, s1)))"

definition unwind :: "string \<Rightarrow> action list \<Rightarrow> state \<Rightarrow> nat option \<times> state" where
  "unwind msg released s =
     (Some EXIT_FAILURE,
      acts (Cerr msg # released @ [Gst_object_unref_appsrc, Gst_object_unref_pipeline]) s)"

text \<open>The part of \<open>main\<close> between the two \<open>Camera\<close> banners (lines 169 to 306).\<close>

definition camera_section :: "env \<Rightarrow> state \<Rightarrow> nat option \<times> state" where
  "camera_section e s0 =
     (let s1 = act CameraManager_start s0 in
      if \<not> manager_start_ok e then unwind ''Failed to start CameraManager'' [] s1
      else if n_cameras e = 0 then unwind ''No cameras available'' [CameraManager_stop] s1
      else
      let s2 = act CameraManager_get s1 in
      if \<not> get_ok e then unwind ''Failed to acquire camera'' [CameraManager_stop] s2
      else
      let s3 = act Camera_acquire s2 in
      if \<not> acquire_ok e then unwind ''Failed to acquire camera'' [CameraManager_stop] s3
      else
      let s4 = act Camera_generateConfiguration s3 in
      if \<not> generate_ok e
      then unwind ''Failed to generate camera configuration'' [Camera_release, CameraManager_stop] s4
      else
      let s5 = act Config_validate s4 in
      if validate_status e = Invalid
      then unwind ''Camera configuration invalid'' [Camera_release, CameraManager_stop] s5
      else
      let s6 = act Camera_configure s5;
          s7 = s6\<lparr>width := cfg_width e, height := cfg_height e\<rparr>;
          s8 = act (Cout_configuration (cfg_width e) (cfg_height e)) s7
      in case allocate_all (allocate_results e) s8 of
           (False, s9) \<Rightarrow>
             unwind ''Failed to allocate buffers'' [Camera_release, CameraManager_stop] s9
         | (True, s9) \<Rightarrow>
             (case create_requests (pool e) s9 of
                (n, s10) \<Rightarrow>
                  let s11 = act Camera_start (act Connect_requestCompleted s10) in
                  if \<not> camera_start_ok e
                  then unwind ''Failed to start camera'' [Camera_release, CameraManager_stop] s11
                  else (None,
                        acts (replicate n Camera_queueRequest @
                              [Cout ''Streaming to'', Cout ''Streaming MJPEG RTP to'',
                               Cout ''Press Ctrl-C to stop'']) s11)))"

text \<open>
  The format string of \<open>snprintf\<close>, up to the hole \<open>%s\<close> and after the hole
  \<open>%d\<close>; the pieces are the adjacent string literals of the source.
\<close>

definition pipeline_format_head :: string where
  "pipeline_format_head =
     ''appsrc name=mysrc is-live=true block=true format=TIME '' @
     ''caps=video/x-raw,format=BGRx,width=800,height=600,framerate=30/1 '' @
     ''! videoconvert '' @
     ''! video/x-raw,format=I420 '' @
     ''! x264enc tune=zerolatency speed-preset=ultrafast '' @
     ''! rtph264pay config-interval=1 pt=96 '' @
     ''! udpsink host=''"

definition pipeline_format_tail :: string where
  "pipeline_format_tail = '' auto-multicast=false''"

text \<open>The conversion \<open>%d\<close> of an \<open>int\<close>.\<close>

function decimal :: "nat \<Rightarrow> string" where
  "decimal n =
     (if n < 10 then [char_of (48 + n)]
      else decimal (n div 10) @ [char_of (48 + n mod 10)])"
  by pat_completeness auto
termination
  by (relation "measure id") auto

definition printf_d :: "int \<Rightarrow> string" where
  "printf_d i = (if i < 0 then CHR ''-'' # decimal (nat (- i)) else decimal (nat i))"

text \<open>
  \<open>snprintf (pipeline_desc, sizeof (pipeline_desc), ...)\<close> writes at most 1023
  characters and cuts the rest.
\<close>

definition snprintf_pipeline_desc :: "string \<Rightarrow> int \<Rightarrow> string" where
  "snprintf_pipeline_desc ip port =
     take 1023 (pipeline_format_head @ ip @ '' port='' @ printf_d port @ pipeline_format_tail)"

text \<open>
  The description \<open>main\<close> launches: the text, and the caps it states, which are the literal
  \<open>video/x-raw,format=BGRx,width=800,height=600,framerate=30/1\<close> within the first 118
  characters of the format.
\<close>

definition format_pipeline_desc :: "string \<Rightarrow> int \<Rightarrow> pipeline_desc" where
  "format_pipeline_desc ip port =
     \<lparr>src_caps = \<lparr>caps_format = ''BGRx'', caps_width = 800, caps_height = 600,
                   caps_framerate = (30, 1)\<rparr>,
      desc_text = snprintf_pipeline_desc ip port\<rparr>"

text \<open>
  The part of \<open>main\<close> between the two \<open>GStreamer\<close> banners up to the call of
  \<open>g_main_loop_run\<close> (lines 308 to 347).
\<close>

definition gstreamer_section :: "env \<Rightarrow> state \<Rightarrow> nat option \<times> state" where
  "gstreamer_section e s0 =
     (let desc = format_pipeline_desc (dest_ip e) (dest_port e);
          s1 = acts [Gst_init, Cout_pipeline desc, Gst_parse_launch desc] s0 in
      if \<not> parse_launch_ok e
      then (Some EXIT_FAILURE,
            acts (Cerr ''Failed to create pipeline'' #
                  (if parse_error_set e then [G_error_free] else [])) s1)
      else
      let s2 = act (Gst_bin_get_by_name ''mysrc'') s1 in
      if \<not> get_by_name_ok e
      then (Some EXIT_FAILURE,
            acts [Cerr ''Failed to get appsrc element from pipeline'',
                  Gst_object_unref_pipeline] s2)
      else
      let s3 = s2\<lparr>g_appsrc := True\<rparr>;
          s4 = act (Gst_element_set_state GST_STATE_PLAYING) s3;
          s5 = act (G_timeout_add (1000 div FPS)) (s4\<lparr>timeout_source := True\<rparr>)
      in (None, act G_main_loop_new s5))"

text \<open>The statements after \<open>g_main_loop_run\<close> (lines 351 to 367).\<close>

definition clean_up :: "env \<Rightarrow> state \<Rightarrow> state" where
  "clean_up e s =
     acts ([Cout ''Stopping...'', Camera_stop] @
           replicate (length (allocate_results e)) Allocator_free @
           [Camera_release, CameraManager_stop, Gst_app_src_end_of_stream,
            Gst_element_set_state GST_STATE_NULL, Gst_object_unref_appsrc,
            Gst_object_unref_pipeline]) s"

text \<open>
  \<open>main\<close> from its first statement up to the call of \<open>g_main_loop_run\<close>: the
  check of the arguments, the camera part and the GStreamer part. The line
  \<open>std::signal(SIGINT, sigint_handler)\<close> is commented out in the source, so the
  disposition of SIGINT stays the default one.
\<close>

definition startup :: "env \<Rightarrow> nat option \<times> state" where
  "startup e =
     (if argc e < 3 then (Some EXIT_FAILURE, act (Cerr ''Usage'') initial_state)
      else
        case camera_section e initial_state of
          (Some code, s1) \<Rightarrow> (Some code, s1)
        | (None, s1) \<Rightarrow> gstreamer_section e s1)"

text \<open>
  \<open>main e evs\<close>: the program started in environment \<open>e\<close>, with \<open>evs\<close> the events
  that reach the process after it has entered the main loop. A request that completes
  between \<open>g_camera->start ()\<close> and the loop is taken to complete as the loop starts:
  nothing in between reads or writes \<open>frame\<close> or \<open>bytes_used\<close>.
\<close>

definition main :: "env \<Rightarrow> event list \<Rightarrow> outcome \<times> state" where
  "main e evs =
     (case startup e of
        (Some code, s1) \<Rightarrow> (Exited code, s1)
      | (None, s1) \<Rightarrow>
          (case g_main_loop_run evs s1 of
             (Returned, s2) \<Rightarrow> (Exited 0, clean_up e s2)
           | (Blocked, s2) \<Rightarrow> (Running, s2)
           | (Signalled, s2) \<Rightarrow> (Killed_by_signal, s2)
           | (Faulted, s2) \<Rightarrow> (Crashed, s2)))"

subsection \<open>Reading a trace\<close>

text \<open>The buffers handed to the appsrc, oldest first, each with the appsrc's answer.\<close>

definition pushes :: "action list \<Rightarrow> (GstBuffer \<times> GstFlowReturn) list" where
  "pushes tr = concat (map (\<lambda>a. case a of Push_buffer b r \<Rightarrow> [(b, r)] | _ \<Rightarrow> []) tr)"

text \<open>The calls of \<open>malloc\<close> and the copies into the frame region, oldest first.\<close>

definition heap_action :: "action \<Rightarrow> bool" where
  "heap_action a = (case a of Malloc n \<Rightarrow> True | Memcpy_to_frame n \<Rightarrow> True | _ \<Rightarrow> False)"

definition heap_actions :: "action list \<Rightarrow> action list" where
  "heap_actions tr = filter heap_action tr"

text \<open>
  The byte counts of the copies into the frame region, the sizes passed to \<open>malloc\<close>,
  and the diagnostics about an oversized payload (reported count, mapped length), each
  oldest first.
\<close>

definition copies :: "action list \<Rightarrow> nat list" where
  "copies tr = concat (map (\<lambda>a. case a of Memcpy_to_frame n \<Rightarrow> [n] | _ \<Rightarrow> []) tr)"

definition allocations :: "action list \<Rightarrow> nat list" where
  "allocations tr = concat (map (\<lambda>a. case a of Malloc n \<Rightarrow> [n] | _ \<Rightarrow> []) tr)"

definition diagnostics :: "action list \<Rightarrow> (u32 \<times> nat) list" where
  "diagnostics tr =
     concat (map (\<lambda>a. case a of Cerr_payload_larger b n \<Rightarrow> [(b, n)] | _ \<Rightarrow> []) tr)"

text \<open>
  The planes that the events of a run hand to \<open>requestComplete\<close> with status Complete, in
  the order in which its two loops visit them.
\<close>

definition completed_planes :: "event \<Rightarrow> plane list" where
  "completed_planes ev =
     (case ev of
        RequestCompleted req \<Rightarrow>
          if req_status req = RequestComplete then concat (req_buffers req) else []
      | _ \<Rightarrow> [])"

definition published_planes :: "event list \<Rightarrow> plane list" where
  "published_planes evs = concat (map completed_planes evs)"

text \<open>The literal caps of the pipeline description.\<close>

definition literal_caps :: appsrc_caps where
  "literal_caps = \<lparr>caps_format = ''BGRx'', caps_width = 800, caps_height = 600,
                    caps_framerate = (30, 1)\<rparr>"

text \<open>
  The actions of \<open>main\<close> before the main loop: none of them belongs to the bridge or to
  the statements after the loop, and a pipeline is only ever launched with the literal caps.
\<close>

definition startup_action :: "action \<Rightarrow> bool" where
  "startup_action a =
     (case a of
        Malloc n \<Rightarrow> False
      | Memcpy_to_frame n \<Rightarrow> False
      | Cerr_payload_larger b n \<Rightarrow> False
      | Request_reuse \<Rightarrow> False
      | Push_buffer b r \<Rightarrow> False
      | Print_failed_push r \<Rightarrow> False
      | Gst_app_src_end_of_stream \<Rightarrow> False
      | Allocator_free \<Rightarrow> False
      | Camera_stop \<Rightarrow> False
      | Gst_parse_launch d \<Rightarrow> src_caps d = literal_caps
      | Gst_element_set_state st \<Rightarrow> st = GST_STATE_PLAYING
      | G_main_loop_run \<Rightarrow> False
      | _ \<Rightarrow> True)"

text \<open>The actions of the bridge while the main loop runs.\<close>

definition loop_action :: "action \<Rightarrow> bool" where
  "loop_action a =
     (case a of
        Malloc n \<Rightarrow> True
      | Memcpy_to_frame n \<Rightarrow> True
      | Cerr_payload_larger b n \<Rightarrow> True
      | Request_reuse \<Rightarrow> True
      | Camera_queueRequest \<Rightarrow> True
      | Push_buffer b r \<Rightarrow> True
      | Print_failed_push r \<Rightarrow> True
      | G_main_loop_run \<Rightarrow> True
      | _ \<Rightarrow> False)"

subsection \<open>A concrete run\<close>

text \<open>
  An environment in which every call succeeds, the validated configuration is 640 by 480
  and the pool has four buffers; a completed request with one plane of four bytes; the
  same plane with a reported payload of nine bytes; a cancelled request.
\<close>

definition demo_env :: env where
  "demo_env =
     \<lparr>argc = 3, dest_ip = ''192.168.1.50'', dest_port = 5000, manager_start_ok = True,
      n_cameras = 1, get_ok = True, acquire_ok = True, generate_ok = True,
      validate_status = Adjusted, cfg_width = 640, cfg_height = 480,
      allocate_results = [True], pool = [(True, True), (True, True), (True, True), (True, True)],
      camera_start_ok = True, parse_launch_ok = True, parse_error_set = False,
      get_by_name_ok = True\<rparr>"

definition demo_plane :: plane where
  "demo_plane = \<lparr>bytesused = 4, plane_data = [1, 2, 3, 4]\<rparr>"

definition oversized_plane :: plane where
  "oversized_plane = \<lparr>bytesused = 9, plane_data = [5, 6, 7, 8]\<rparr>"

definition demo_request :: request where
  "demo_request = \<lparr>req_status = RequestComplete, req_buffers = [[demo_plane]]\<rparr>"

definition cancelled_request :: request where
  "cancelled_request = \<lparr>req_status = RequestCancelled, req_buffers = [[demo_plane]]\<rparr>"

text \<open>
  A completed request whose buffer has two planes, the second one oversized; and a
  completed request with one plane of two bytes.
\<close>

definition two_plane_request :: request where
  "two_plane_request =
     \<lparr>req_status = RequestComplete, req_buffers = [[demo_plane, oversized_plane]]\<rparr>"

definition small_plane :: plane where
  "small_plane = \<lparr>bytesused = 2, plane_data = [9, 9]\<rparr>"

definition small_request :: request where
  "small_request = \<lparr>req_status = RequestComplete, req_buffers = [[small_plane]]\<rparr>"

text \<open>The globals after \<open>requestComplete\<close> has published \<open>demo_request\<close> once.\<close>

definition demo_state :: state where
  "demo_state = requestComplete demo_request initial_state"

text \<open>
  What \<open>main\<close> has done in \<open>demo_env\<close> when it calls \<open>g_main_loop_run\<close>, and the
  state in which the loop then waits for its first event.
\<close>

definition demo_trace :: "action list" where
  "demo_trace =
     [CameraManager_start, CameraManager_get, Camera_acquire,
      Camera_generateConfiguration, Config_validate, Camera_configure,
      Cout_configuration 640 480, Allocator_allocate,
      Camera_createRequest, Request_addBuffer, Camera_createRequest, Request_addBuffer,
      Camera_createRequest, Request_addBuffer, Camera_createRequest, Request_addBuffer,
      Connect_requestCompleted, Camera_start,
      Camera_queueRequest, Camera_queueRequest, Camera_queueRequest, Camera_queueRequest,
      Cout ''Streaming to'', Cout ''Streaming MJPEG RTP to'', Cout ''Press Ctrl-C to stop'',
      Gst_init, Cout_pipeline (format_pipeline_desc ''192.168.1.50'' 5000),
      Gst_parse_launch (format_pipeline_desc ''192.168.1.50'' 5000),
      Gst_bin_get_by_name ''mysrc'', Gst_element_set_state GST_STATE_PLAYING,
      G_timeout_add 33, G_main_loop_new]"

definition demo_loop_state :: state where
  "demo_loop_state =
     \<lparr>frame = None, bytes_used = 0, timestamp = 0, width = 640, height = 480,
      g_running = True, g_appsrc = True, trace = demo_trace @ [G_main_loop_run],
      fault = None, timeout_source = True, is_running = True,
      sigint_disposition = SIG_DFL, killed = False\<rparr>"

text \<open>
  Events for the concrete run: one completed request, two ticks the appsrc accepts, one
  it refuses, and a tick that comes too late.
\<close>

definition demo_events :: "event list" where
  "demo_events =
     [RequestCompleted demo_request, Tick GST_FLOW_OK, Tick GST_FLOW_OK,
      Tick GST_FLOW_ERROR, Tick GST_FLOW_OK]"

text \<open>Events in which a frame of two bytes is followed by a frame of four bytes.\<close>

definition growing_events :: "event list" where
  "growing_events = [RequestCompleted small_request, RequestCompleted demo_request]"

subsection \<open>Invariants of a run\<close>

text \<open>
  What holds of the state while \<open>main\<close> is still before the main loop: the bridge has
  not been touched and only startup actions have happened.
\<close>

definition startup_ok :: "state \<Rightarrow> bool" where
  "startup_ok s =
     (frame s = None \<and> bytes_used s = 0 \<and> timestamp s = 0 \<and> fault s = None
      \<and> \<not> killed s \<and> sigint_disposition s = SIG_DFL \<and> \<not> is_running s
      \<and> list_all startup_action (trace s))"

text \<open>
  The clock and the buffers pushed so far: the clock has advanced once per push, the
  buffers carry the multiples of the duration in order, and every push before the last
  one was accepted (all of them while the timeout source is installed).
\<close>

definition clock_inv :: "state \<Rightarrow> bool" where
  "clock_inv s =
     (timestamp s = word_of_nat (length (pushes (trace s)) * 33333333)
      \<and> map (\<lambda>p. pts (fst p)) (pushes (trace s))
          = map (\<lambda>k. word_of_nat (k * 33333333)) [0..<length (pushes (trace s))]
      \<and> list_all (\<lambda>p. snd p = GST_FLOW_OK) (butlast (pushes (trace s)))
      \<and> (timeout_source s \<longrightarrow> list_all (\<lambda>p. snd p = GST_FLOW_OK) (pushes (trace s))))"

text \<open>
  The frame region and the heap actions so far: none while \<open>frame\<close> is null; afterwards
  one \<open>malloc\<close> of the region's size, a first copy of that size, and later copies,
  which all fit the region unless the run has ended in a write past it (then the last
  copy is the one that did not fit).
\<close>

definition heap_inv :: "state \<Rightarrow> bool" where
  "heap_inv s =
     (case frame s of
        None \<Rightarrow> heap_actions (trace s) = []
      | Some f \<Rightarrow>
          (fault s = None \<longrightarrow> bytes_used s \<le> length f)
          \<and> (\<exists>ns. heap_actions (trace s) =
                     Malloc (length f) # Memcpy_to_frame (length f) # map Memcpy_to_frame ns
                   \<and> (fault s = None \<longrightarrow> list_all (\<lambda>m. m \<le> length f) ns)
                   \<and> (fault s = Some Write_out_of_bounds \<longrightarrow>
                        ns \<noteq> [] \<and> length f < last ns)))"

text \<open>Inside the main loop.\<close>

definition loop_inv :: "state \<Rightarrow> bool" where
  "loop_inv s =
     (is_running s \<and> sigint_disposition s = SIG_DFL
      \<and> (frame s = None \<longrightarrow> timeout_source s \<and> pushes (trace s) = [])
      \<and> list_all (\<lambda>a. startup_action a \<or> loop_action a) (trace s))"

section \<open>Properties\<close>

lemma FPS_duration: "gst_util_uint64_scale_int 1 GST_SECOND FPS = 33333333"
  by (simp add: gst_util_uint64_scale_int_def GST_SECOND_def FPS_def G_MAXUINT64_def)

subsection \<open>Basic facts\<close>

lemma act_fields [simp]:
  "trace (act a s) = trace s @ [a]"
  "frame (act a s) = frame s"
  "bytes_used (act a s) = bytes_used s"
  "timestamp (act a s) = timestamp s"
  "fault (act a s) = fault s"
  "timeout_source (act a s) = timeout_source s"
  "is_running (act a s) = is_running s"
  "sigint_disposition (act a s) = sigint_disposition s"
  "killed (act a s) = killed s"
  "g_appsrc (act a s) = g_appsrc s"
  "g_running (act a s) = g_running s"
  "width (act a s) = width s"
  "height (act a s) = height s"
  by (simp_all add: act_def)

lemma acts_fields [simp]:
  "trace (acts as s) = trace s @ as"
  "frame (acts as s) = frame s"
  "bytes_used (acts as s) = bytes_used s"
  "timestamp (acts as s) = timestamp s"
  "fault (acts as s) = fault s"
  "timeout_source (acts as s) = timeout_source s"
  "is_running (acts as s) = is_running s"
  "sigint_disposition (acts as s) = sigint_disposition s"
  "killed (acts as s) = killed s"
  "g_appsrc (acts as s) = g_appsrc s"
  "g_running (acts as s) = g_running s"
  "width (acts as s) = width s"
  "height (acts as s) = height s"
  by (simp_all add: acts_def)

lemma demo_state_eq:
  "demo_state =
     initial_state\<lparr>frame := Some [1, 2, 3, 4], bytes_used := 4,
        trace := [Malloc 4, Memcpy_to_frame 4, Request_reuse, Camera_queueRequest]\<rparr>"
  by (simp add: demo_state_def requestComplete_def demo_request_def demo_plane_def
      publish_buffer_def publish_plane_def clamped_count_def memcpy_to_frame_def
      initial_state_def act_def)

subsection \<open>A request that did not complete\<close>

lemma requestComplete_not_complete:
  "req_status req \<noteq> RequestComplete \<Longrightarrow> requestComplete req s = s"
  by (simp add: requestComplete_def)

text \<open>
  C5, as the claim states it: a completion whose status is not Complete publishes nothing
  and re-queues the request. The source returns before \<open>reuse\<close> and
  \<open>queueRequest\<close>: after the callback for a cancelled request the trace holds no
  \<open>queueRequest\<close>.
\<close>

theorem cancelled_request_not_requeued:
  "Camera_queueRequest \<notin> set (trace (requestComplete cancelled_request initial_state))"
  by (simp add: requestComplete_def cancelled_request_def initial_state_def)

text \<open>
  C5, amended: on a completion callback whose request status is not Complete the callback
  returns at once. Nothing is published, nothing is printed, and the request is neither
  reused nor queued again: the state, trace included, is unchanged.
\<close>

theorem incomplete_request_is_ignored:
  assumes "req_status req \<noteq> RequestComplete"
  shows "requestComplete req s = s"
  using assms by (rule requestComplete_not_complete)

theorem incomplete_request_is_ignored_witness:
  "req_status cancelled_request \<noteq> RequestComplete
   \<and> requestComplete cancelled_request demo_state = demo_state"
proof -
  have st: "req_status cancelled_request \<noteq> RequestComplete"
    by (simp add: cancelled_request_def)
  from incomplete_request_is_ignored [OF st] show ?thesis
    using st by simp
qed

subsection \<open>One call of push\_frame\<close>

lemma push_frame_null:
  "frame s = None \<Longrightarrow> push_frame r s = (True, s)"
  by (simp add: push_frame_def)

lemma push_frame_failed:
  assumes "frame s = Some f" and "bytes_used s \<le> length f" and "r \<noteq> GST_FLOW_OK"
  shows "push_frame r s =
     (False, s\<lparr>timestamp := timestamp s + 33333333,
               trace := trace s @
                 [Push_buffer \<lparr>payload = take (bytes_used s) f, pts = timestamp s,
                               duration = 33333333\<rparr> r,
                  Print_failed_push r]\<rparr>)"
  using assms by (simp add: push_frame_def FPS_duration Let_def act_def)

lemma push_frame_ok:
  assumes "frame s = Some f" and "bytes_used s \<le> length f"
  shows "push_frame GST_FLOW_OK s =
     (True, s\<lparr>timestamp := timestamp s + 33333333,
              trace := trace s @
                 [Push_buffer \<lparr>payload = take (bytes_used s) f, pts = timestamp s,
                               duration = 33333333\<rparr> GST_FLOW_OK]\<rparr>)"
  using assms by (simp add: push_frame_def FPS_duration Let_def act_def)

text \<open>
  C2, as the claim states it: after a submission that fails with a status other than
  Flushing or EOS the clock is not advanced and the pump goes on. With one frame
  published and the appsrc answering \<open>GST_FLOW_ERROR\<close>, the clock has moved and
  \<open>push_frame\<close> returns \<open>FALSE\<close>, which removes the timeout source.
\<close>

theorem failed_push_advances_clock_and_stops_pump:
  "timestamp (snd (push_frame GST_FLOW_ERROR demo_state)) \<noteq> timestamp demo_state
   \<and> \<not> fst (push_frame GST_FLOW_ERROR demo_state)"
  unfolding demo_state_eq
  by (simp add: push_frame_def FPS_duration initial_state_def act_def)

text \<open>
  C2, amended: when a submission to the appsrc fails with any status other than OK
  (Flushing and EOS included), the failure is printed, the buffer has been handed to the
  appsrc, the clock has been advanced by one duration all the same, and \<open>push_frame\<close>
  returns \<open>FALSE\<close>: the timeout source is removed and no later tick calls
  \<open>push_frame\<close> again.
\<close>

theorem failed_push_ends_pump:
  assumes "frame s = Some f" and "bytes_used s \<le> length f" and "r \<noteq> GST_FLOW_OK"
    and "timeout_source s"
  shows "push_frame r s =
           (False, s\<lparr>timestamp := timestamp s + 33333333,
                     trace := trace s @
                       [Push_buffer \<lparr>payload = take (bytes_used s) f, pts = timestamp s,
                                     duration = 33333333\<rparr> r,
                        Print_failed_push r]\<rparr>)
         \<and> timeout_source (dispatch (Tick r) s) = False
         \<and> dispatch (Tick r') (dispatch (Tick r) s) = dispatch (Tick r) s"
proof -
  have pf: "push_frame r s =
           (False, s\<lparr>timestamp := timestamp s + 33333333,
                     trace := trace s @
                       [Push_buffer \<lparr>payload = take (bytes_used s) f, pts = timestamp s,
                                     duration = 33333333\<rparr> r,
                        Print_failed_push r]\<rparr>)"
    using assms(1-3) by (rule push_frame_failed)
  have off: "timeout_source (dispatch (Tick r) s) = False"
    using assms(4) by (simp add: dispatch_def pf)
  have "dispatch (Tick r') (dispatch (Tick r) s) = dispatch (Tick r) s"
    using off by (simp add: dispatch_def [of "Tick r'"])
  with pf off show ?thesis by simp
qed

theorem failed_push_ends_pump_witness:
  "frame (demo_state\<lparr>timeout_source := True\<rparr>) = Some [1, 2, 3, 4]
   \<and> bytes_used (demo_state\<lparr>timeout_source := True\<rparr>) \<le> length [1, 2, 3, 4 :: u8]
   \<and> GST_FLOW_NOT_NEGOTIATED \<noteq> GST_FLOW_OK
   \<and> timeout_source (demo_state\<lparr>timeout_source := True\<rparr>)
   \<and> fst (push_frame GST_FLOW_NOT_NEGOTIATED (demo_state\<lparr>timeout_source := True\<rparr>)) = False
   \<and> timestamp (snd (push_frame GST_FLOW_NOT_NEGOTIATED (demo_state\<lparr>timeout_source := True\<rparr>)))
       = 33333333
   \<and> timeout_source (dispatch (Tick GST_FLOW_NOT_NEGOTIATED)
         (demo_state\<lparr>timeout_source := True\<rparr>)) = False"
proof -
  have a: "frame (demo_state\<lparr>timeout_source := True\<rparr>) = Some [1, 2, 3, 4]"
    by (simp add: demo_state_eq)
  have b: "bytes_used (demo_state\<lparr>timeout_source := True\<rparr>) \<le> length [1, 2, 3, 4 :: u8]"
    by (simp add: demo_state_eq)
  have c: "GST_FLOW_NOT_NEGOTIATED \<noteq> GST_FLOW_OK" by simp
  have d: "timeout_source (demo_state\<lparr>timeout_source := True\<rparr>)" by simp
  have t0: "timestamp demo_state = 0"
    by (simp add: demo_state_eq initial_state_def)
  from failed_push_ends_pump [OF a b c d] a b c d t0 show ?thesis
    by simp
qed

subsection \<open>One plane of a completed request\<close>

lemma clamped_count_le: "clamped_count p \<le> length (plane_data p)"
  unfolding clamped_count_def
  by (rule le_trans [OF min.cobounded2 mod_less_eq_dividend])

lemma clamped_count_small:
  "length (plane_data p) < 2 ^ 32 \<Longrightarrow>
   clamped_count p = min (unat (bytesused p)) (length (plane_data p))"
  by (simp add: clamped_count_def)

lemma publish_plane_faulted:
  "fault s \<noteq> None \<Longrightarrow> publish_plane p s = s"
  by (simp add: publish_plane_def)

lemma publish_plane_fresh:
  assumes "fault s = None" and "frame s = None"
  shows "publish_plane p s =
     s\<lparr>bytes_used := clamped_count p,
       frame := Some (take (clamped_count p) (plane_data p)),
       trace := trace s @
         (if unat (bytesused p) > length (plane_data p)
          then [Cerr_payload_larger (bytesused p) (length (plane_data p))] else []) @
         [Malloc (clamped_count p), Memcpy_to_frame (clamped_count p)]\<rparr>"
  using assms clamped_count_le [of p]
  by (simp add: publish_plane_def memcpy_to_frame_def Let_def act_def)

lemma publish_plane_fits:
  assumes "fault s = None" and "frame s = Some f" and "clamped_count p \<le> length f"
  shows "publish_plane p s =
     s\<lparr>bytes_used := clamped_count p,
       frame := Some (take (clamped_count p) (plane_data p) @ drop (clamped_count p) f),
       trace := trace s @
         (if unat (bytesused p) > length (plane_data p)
          then [Cerr_payload_larger (bytesused p) (length (plane_data p))] else []) @
         [Memcpy_to_frame (clamped_count p)]\<rparr>"
  using assms clamped_count_le [of p]
  by (simp add: publish_plane_def memcpy_to_frame_def Let_def act_def)

lemma publish_plane_overflow:
  assumes "fault s = None" and "frame s = Some f" and "\<not> clamped_count p \<le> length f"
  shows "publish_plane p s =
     s\<lparr>bytes_used := clamped_count p,
       trace := trace s @
         (if unat (bytesused p) > length (plane_data p)
          then [Cerr_payload_larger (bytesused p) (length (plane_data p))] else []) @
         [Memcpy_to_frame (clamped_count p)],
       fault := Some Write_out_of_bounds\<rparr>"
  using assms clamped_count_le [of p]
  by (simp add: publish_plane_def memcpy_to_frame_def Let_def act_def)

subsection \<open>Before the main loop\<close>

lemma startup_ok_act:
  "startup_ok s \<Longrightarrow> startup_action a \<Longrightarrow> startup_ok (act a s)"
  by (simp add: startup_ok_def)

lemma startup_ok_acts:
  "startup_ok s \<Longrightarrow> list_all startup_action as \<Longrightarrow> startup_ok (acts as s)"
  by (simp add: startup_ok_def)

lemma startup_ok_initial: "startup_ok initial_state"
  by (simp add: startup_ok_def initial_state_def)

lemma startup_ok_allocate_all:
  "startup_ok s \<Longrightarrow> startup_ok (snd (allocate_all oks s))"
  by (induction oks arbitrary: s) (simp_all add: startup_ok_act startup_action_def)

lemma startup_ok_create_requests:
  "startup_ok s \<Longrightarrow> startup_ok (snd (create_requests bufs s))"
proof (induction bufs arbitrary: s)
  case Nil
  then show ?case by simp
next
  case (Cons b bufs)
  obtain created added where b: "b = (created, added)" by (cases b)
  have 1: "startup_ok (acts [Camera_createRequest, Cerr ''Failed to create request''] s)"
    using Cons.prems by (simp add: startup_ok_acts startup_action_def)
  have 2: "startup_ok
        (acts [Camera_createRequest, Request_addBuffer, Cerr ''Failed to add buffer''] s)"
    using Cons.prems by (simp add: startup_ok_acts startup_action_def)
  have 3: "startup_ok (acts [Camera_createRequest, Request_addBuffer] s)"
    using Cons.prems by (simp add: startup_ok_acts startup_action_def)
  show ?case
    using Cons.IH [OF 1] Cons.IH [OF 2] Cons.IH [OF 3]
    by (auto simp: b split: prod.splits)
qed

lemma startup_ok_unwind:
  "startup_ok s \<Longrightarrow> list_all startup_action released \<Longrightarrow>
   startup_ok (snd (unwind msg released s))"
  by (simp add: unwind_def startup_ok_acts startup_action_def)

lemma unwind_code: "fst (unwind msg released s) = Some EXIT_FAILURE"
  by (simp add: unwind_def)

lemma startup_ok_fields:
  "startup_ok s \<Longrightarrow> startup_ok (s\<lparr>width := w, height := h\<rparr>)"
  by (simp add: startup_ok_def)
lemma allocate_all_startup_ok:
  "allocate_all oks s = (b, s') \<Longrightarrow> startup_ok s \<Longrightarrow> startup_ok s'"
  using startup_ok_allocate_all [of s oks] by simp

lemma create_requests_startup_ok:
  "create_requests bufs s = (n, s') \<Longrightarrow> startup_ok s \<Longrightarrow> startup_ok s'"
  using startup_ok_create_requests [of s bufs] by simp

lemma unwind_startup_ok:
  "unwind msg released s = (r, s') \<Longrightarrow> startup_ok s \<Longrightarrow> list_all startup_action released \<Longrightarrow>
   startup_ok s' \<and> r = Some EXIT_FAILURE"
  using startup_ok_unwind [of s released msg] unwind_code [of msg released s] by simp

lemma camera_section_startup_ok:
  assumes "camera_section e s = (r, s')" and "startup_ok s"
  shows "startup_ok s' \<and> (r = None \<or> r = Some EXIT_FAILURE)"
proof -
  let ?s1 = "act CameraManager_start s"
  let ?s2 = "act CameraManager_get ?s1"
  let ?s3 = "act Camera_acquire ?s2"
  let ?s4 = "act Camera_generateConfiguration ?s3"
  let ?s5 = "act Config_validate ?s4"
  let ?s8 = "act (Cout_configuration (cfg_width e) (cfg_height e))
               ((act Camera_configure ?s5)\<lparr>width := cfg_width e, height := cfg_height e\<rparr>)"
  have r: "r = fst (camera_section e s)" and s': "s' = snd (camera_section e s)"
    using assms(1) by simp_all
  have 1: "startup_ok ?s1" using assms(2) by (simp add: startup_ok_act startup_action_def)
  have 2: "startup_ok ?s2" using 1 by (simp add: startup_ok_act startup_action_def)
  have 3: "startup_ok ?s3" using 2 by (simp add: startup_ok_act startup_action_def)
  have 4: "startup_ok ?s4" using 3 by (simp add: startup_ok_act startup_action_def)
  have 5: "startup_ok ?s5" using 4 by (simp add: startup_ok_act startup_action_def)
  have 8: "startup_ok ?s8"
    using 5 by (simp add: startup_ok_act startup_ok_fields startup_action_def)
  have rel1: "list_all startup_action [CameraManager_stop]"
    by (simp add: startup_action_def)
  have rel2: "list_all startup_action [Camera_release, CameraManager_stop]"
    by (simp add: startup_action_def)
  have rel0: "list_all startup_action []" by simp
  note uw = startup_ok_unwind
  show ?thesis
  proof (cases "manager_start_ok e \<and> n_cameras e \<noteq> 0 \<and> get_ok e \<and> acquire_ok e
                \<and> generate_ok e \<and> validate_status e \<noteq> Invalid")
    case False
    then show ?thesis
      unfolding r s'
      using uw [OF 1 rel0] uw [OF 1 rel1] uw [OF 2 rel1] uw [OF 3 rel1]
        uw [OF 4 rel2] uw [OF 5 rel2]
      by (auto simp: camera_section_def Let_def unwind_code)
  next
    case True
    obtain b s9 where al: "allocate_all (allocate_results e) ?s8 = (b, s9)"
      by (cases "allocate_all (allocate_results e) ?s8")
    have 9: "startup_ok s9" using allocate_all_startup_ok [OF al 8] .
    show ?thesis
    proof (cases b)
      case False
      have "camera_section e s =
          unwind ''Failed to allocate buffers'' [Camera_release, CameraManager_stop] s9"
        using True al False by (simp add: camera_section_def Let_def)
      then show ?thesis
        unfolding r s' using uw [OF 9 rel2] by (simp add: unwind_code)
    next
      case b: True
      obtain n s10 where cr: "create_requests (pool e) s9 = (n, s10)"
        by (cases "create_requests (pool e) s9")
      have 10: "startup_ok s10" using create_requests_startup_ok [OF cr 9] .
      let ?s11 = "act Camera_start (act Connect_requestCompleted s10)"
      have 11: "startup_ok ?s11"
        using 10 by (simp add: startup_ok_act startup_action_def)
      have eq: "camera_section e s =
          (if \<not> camera_start_ok e
           then unwind ''Failed to start camera'' [Camera_release, CameraManager_stop] ?s11
           else (None,
                 acts (replicate n Camera_queueRequest @
                       [Cout ''Streaming to'', Cout ''Streaming MJPEG RTP to'',
                        Cout ''Press Ctrl-C to stop'']) ?s11))"
        using True al b cr by (simp add: camera_section_def Let_def)
      have q: "list_all startup_action (replicate n Camera_queueRequest @
                       [Cout ''Streaming to'', Cout ''Streaming MJPEG RTP to'',
                        Cout ''Press Ctrl-C to stop''])"
        by (simp add: startup_action_def list_all_iff)
      show ?thesis
        unfolding r s' eq using uw [OF 11 rel2] startup_ok_acts [OF 11 q]
        by (simp add: unwind_code)
    qed
  qed
qed

lemma gstreamer_section_startup_ok:
  assumes "gstreamer_section e s = (r, s')" and "startup_ok s"
  shows "startup_ok s' \<and> (r = None \<or> r = Some EXIT_FAILURE)
         \<and> (r = None \<longrightarrow> timeout_source s' \<and> g_appsrc s')"
proof -
  let ?desc = "format_pipeline_desc (dest_ip e) (dest_port e)"
  have caps: "src_caps ?desc = literal_caps"
    by (simp add: format_pipeline_desc_def literal_caps_def)
  show ?thesis
    using assms caps
    by (auto simp: gstreamer_section_def Let_def startup_ok_def startup_action_def
        split: if_splits)
qed

lemma startup_startup_ok:
  assumes "startup e = (r, s)"
  shows "startup_ok s \<and> (r = None \<or> r = Some EXIT_FAILURE)
         \<and> (r = None \<longrightarrow> timeout_source s \<and> g_appsrc s)"
proof (cases "argc e < 3")
  case True
  then have "r = Some EXIT_FAILURE" and "s = act (Cerr ''Usage'') initial_state"
    using assms by (simp_all add: startup_def)
  then show ?thesis
    using startup_ok_act [OF startup_ok_initial, of "Cerr ''Usage''"]
    by (simp add: startup_action_def)
next
  case False
  obtain r1 s1 where cs: "camera_section e initial_state = (r1, s1)"
    by (cases "camera_section e initial_state")
  note c = camera_section_startup_ok [OF cs startup_ok_initial]
  show ?thesis
  proof (cases r1)
    case None
    then have "gstreamer_section e s1 = (r, s)"
      using assms False cs by (simp add: startup_def)
    from gstreamer_section_startup_ok [OF this] c show ?thesis by simp
  next
    case (Some code)
    then have "r = Some code" and "s = s1"
      using assms False cs by (simp_all add: startup_def)
    with c Some show ?thesis by simp
  qed
qed

subsection \<open>Reading a trace\<close>

lemma pushes_append [simp]: "pushes (xs @ ys) = pushes xs @ pushes ys"
  by (simp add: pushes_def)

lemma pushes_Nil [simp]: "pushes [] = []"
  by (simp add: pushes_def)

lemma pushes_Cons: "pushes (a # tr) = pushes [a] @ pushes tr"
  by (simp add: pushes_def)

lemma pushes_push [simp]: "pushes [Push_buffer b r] = [(b, r)]"
  by (simp add: pushes_def)

lemma heap_actions_append [simp]:
  "heap_actions (xs @ ys) = heap_actions xs @ heap_actions ys"
  by (simp add: heap_actions_def)

lemma heap_actions_Nil [simp]: "heap_actions [] = []"
  by (simp add: heap_actions_def)

lemma heap_actions_Cons: "heap_actions (a # tr) = heap_actions [a] @ heap_actions tr"
  by (simp add: heap_actions_def)

lemma heap_actions_heap [simp]:
  "heap_actions [Malloc n] = [Malloc n]"
  "heap_actions [Memcpy_to_frame n] = [Memcpy_to_frame n]"
  by (simp_all add: heap_actions_def heap_action_def)

lemma startup_action_quiet:
  "startup_action a \<Longrightarrow> pushes [a] = [] \<and> heap_actions [a] = []"
  by (cases a) (simp_all add: startup_action_def pushes_def heap_actions_def heap_action_def)

lemma startup_trace_quiet:
  "list_all startup_action tr \<Longrightarrow> pushes tr = [] \<and> heap_actions tr = []"
proof (induction tr)
  case Nil
  show ?case by simp
next
  case (Cons a tr)
  then show ?case
    using startup_action_quiet [of a] pushes_Cons [of a tr] heap_actions_Cons [of a tr]
    by simp
qed

lemma other_actions [simp]:
  "pushes [Malloc n] = []"
  "pushes [Memcpy_to_frame n] = []"
  "pushes [Cerr_payload_larger b n] = []"
  "pushes [Request_reuse] = []"
  "pushes [Camera_queueRequest] = []"
  "pushes [Print_failed_push r] = []"
  "pushes [Gst_app_src_end_of_stream] = []"
  "pushes [G_main_loop_run] = []"
  "heap_actions [Cerr_payload_larger b n] = []"
  "heap_actions [Request_reuse] = []"
  "heap_actions [Camera_queueRequest] = []"
  "heap_actions [Push_buffer buf r] = []"
  "heap_actions [Print_failed_push r] = []"
  "heap_actions [Gst_app_src_end_of_stream] = []"
  "heap_actions [G_main_loop_run] = []"
  by (simp_all add: pushes_def heap_actions_def heap_action_def)

lemma loop_actions [simp]:
  "loop_action (Malloc n)"
  "loop_action (Memcpy_to_frame n)"
  "loop_action (Cerr_payload_larger b n)"
  "loop_action Request_reuse"
  "loop_action Camera_queueRequest"
  "loop_action (Push_buffer buf r)"
  "loop_action (Print_failed_push r)"
  "loop_action G_main_loop_run"
  by (simp_all add: loop_action_def)

subsection \<open>Induction over the steps of a run\<close>

lemma fold_publish_plane_preserves:
  assumes "P s" and "\<And>p s. P s \<Longrightarrow> P (publish_plane p s)"
  shows "P (fold publish_plane b s)"
  using assms(1)
proof (induction b arbitrary: s)
  case Nil
  then show ?case by simp
next
  case (Cons p b)
  from Cons.IH [OF assms(2) [OF Cons.prems]] show ?case by simp
qed

lemma fold_publish_buffer_preserves:
  assumes "P s" and "\<And>p s. P s \<Longrightarrow> P (publish_plane p s)"
  shows "P (fold publish_buffer bs s)"
  using assms(1)
proof (induction bs arbitrary: s)
  case Nil
  then show ?case by simp
next
  case (Cons b bs)
  have "P (publish_buffer b s)"
    unfolding publish_buffer_def
    using Cons.prems assms(2) by (rule fold_publish_plane_preserves)
  from Cons.IH [OF this] show ?case by simp
qed

lemma requestComplete_preserves:
  assumes "P s"
    and plane: "\<And>p s. P s \<Longrightarrow> P (publish_plane p s)"
    and requeue: "\<And>s. P s \<Longrightarrow> P (act Camera_queueRequest (act Request_reuse s))"
  shows "P (requestComplete req s)"
proof -
  have "P (fold publish_buffer (req_buffers req) s)"
    using assms(1) plane by (rule fold_publish_buffer_preserves)
  then show ?thesis
    using assms(1) requeue by (simp add: requestComplete_def Let_def)
qed

lemma dispatch_preserves:
  assumes "P s"
    and plane: "\<And>p s. P s \<Longrightarrow> P (publish_plane p s)"
    and requeue: "\<And>s. P s \<Longrightarrow> P (act Camera_queueRequest (act Request_reuse s))"
    and tick: "\<And>r s. P s \<Longrightarrow> timeout_source s \<Longrightarrow>
                P ((snd (push_frame r s))\<lparr>timeout_source := fst (push_frame r s)\<rparr>)"
    and kill: "\<And>s. P s \<Longrightarrow> sigint_disposition s = SIG_DFL \<Longrightarrow> P (s\<lparr>killed := True\<rparr>)"
    and handler: "\<And>s. P s \<Longrightarrow> sigint_disposition s = Handler \<Longrightarrow> P (sigint_handler s)"
  shows "P (dispatch ev s)"
proof (cases ev)
  case (Tick r)
  show ?thesis
    using assms(1) tick [OF assms(1), of r]
    by (auto simp: dispatch_def Tick split: prod.splits)
next
  case (RequestCompleted req)
  have "P (requestComplete req s)"
    using assms(1) plane requeue by (rule requestComplete_preserves)
  then show ?thesis by (simp add: dispatch_def RequestCompleted)
next
  case SIGINT
  show ?thesis
    using kill [OF assms(1)] handler [OF assms(1)]
    by (simp add: dispatch_def SIGINT split: sig_disposition.splits)
qed

lemma main_loop_iterate_preserves:
  assumes "P s" and "\<And>ev s. P s \<Longrightarrow> P (dispatch ev s)"
  shows "P (snd (main_loop_iterate evs s))"
  using assms(1)
proof (induction evs arbitrary: s)
  case Nil
  then show ?case by simp
next
  case (Cons ev evs)
  from Cons.IH [OF assms(2) [OF Cons.prems], of] Cons.prems assms(2) [OF Cons.prems, of ev]
  show ?case by (simp add: Let_def)
qed

subsection \<open>The shape of the two callbacks\<close>

lemma push_frame_pushes:
  assumes "frame s = Some f" and "bytes_used s \<le> length f"
  shows "push_frame r s =
     (r = GST_FLOW_OK,
      s\<lparr>timestamp := timestamp s + 33333333,
        trace := trace s @
          Push_buffer \<lparr>payload = take (bytes_used s) f, pts = timestamp s,
                        duration = 33333333\<rparr> r #
          (if r = GST_FLOW_OK then [] else [Print_failed_push r])\<rparr>)"
  using assms by (simp add: push_frame_def FPS_duration Let_def act_def)

lemma push_frame_out_of_bounds:
  assumes "frame s = Some f" and "\<not> bytes_used s \<le> length f"
  shows "push_frame r s = (False, s\<lparr>fault := Some Read_out_of_bounds\<rparr>)"
  using assms by (simp add: push_frame_def)

lemma publish_plane_shape:
  "\<exists>n fr as fl.
      publish_plane p s = s\<lparr>bytes_used := n, frame := fr, trace := trace s @ as, fault := fl\<rparr>
      \<and> list_all loop_action as \<and> pushes as = []"
proof (cases "fault s = None")
  case False
  have "publish_plane p s =
      s\<lparr>bytes_used := bytes_used s, frame := frame s, trace := trace s @ [], fault := fault s\<rparr>"
    using False by (simp add: publish_plane_faulted)
  moreover have "list_all loop_action []" "pushes [] = []" by simp_all
  ultimately show ?thesis by blast
next
  case ok: True
  let ?diag = "if unat (bytesused p) > length (plane_data p)
               then [Cerr_payload_larger (bytesused p) (length (plane_data p))] else []"
  have diag: "list_all loop_action ?diag" "pushes ?diag = []" by simp_all
  show ?thesis
  proof (cases "frame s")
    case None
    let ?as = "?diag @ [Malloc (clamped_count p), Memcpy_to_frame (clamped_count p)]"
    have "publish_plane p s =
        s\<lparr>bytes_used := clamped_count p,
          frame := Some (take (clamped_count p) (plane_data p)),
          trace := trace s @ ?as, fault := fault s\<rparr>"
      by (simp add: publish_plane_fresh [OF ok None])
    moreover have "list_all loop_action ?as" "pushes ?as = []"
      by (simp_all add: pushes_def)
    ultimately show ?thesis by blast
  next
    case (Some f)
    show ?thesis
    proof (cases "clamped_count p \<le> length f")
      case True
      let ?as = "?diag @ [Memcpy_to_frame (clamped_count p)]"
      have "publish_plane p s =
          s\<lparr>bytes_used := clamped_count p,
            frame := Some (take (clamped_count p) (plane_data p) @ drop (clamped_count p) f),
            trace := trace s @ ?as, fault := fault s\<rparr>"
        by (simp add: publish_plane_fits [OF ok Some True])
      moreover have "list_all loop_action ?as" "pushes ?as = []"
        using diag by simp_all
      ultimately show ?thesis by blast
    next
      case False
      let ?as = "?diag @ [Memcpy_to_frame (clamped_count p)]"
      have "publish_plane p s =
          s\<lparr>bytes_used := clamped_count p, frame := frame s,
            trace := trace s @ ?as, fault := Some Write_out_of_bounds\<rparr>"
        by (simp add: publish_plane_overflow [OF ok Some False])
      moreover have "list_all loop_action ?as" "pushes ?as = []"
        using diag by simp_all
      ultimately show ?thesis by blast
    qed
  qed
qed

lemma tick_shape:
  "\<exists>ts as fl c.
      (snd (push_frame r s))\<lparr>timeout_source := fst (push_frame r s)\<rparr>
        = s\<lparr>timestamp := ts, trace := trace s @ as, fault := fl, timeout_source := c\<rparr>
      \<and> list_all loop_action as \<and> heap_actions as = []"
proof (cases "frame s")
  case None
  have "(snd (push_frame r s))\<lparr>timeout_source := fst (push_frame r s)\<rparr>
      = s\<lparr>timestamp := timestamp s, trace := trace s @ [], fault := fault s,
          timeout_source := True\<rparr>"
    by (simp add: push_frame_null [OF None])
  moreover have "list_all loop_action []" "heap_actions [] = []" by simp_all
  ultimately show ?thesis by blast
next
  case (Some f)
  show ?thesis
  proof (cases "bytes_used s \<le> length f")
    case True
    let ?as = "Push_buffer \<lparr>payload = take (bytes_used s) f, pts = timestamp s,
                        duration = 33333333\<rparr> r #
          (if r = GST_FLOW_OK then [] else [Print_failed_push r])"
    have "(snd (push_frame r s))\<lparr>timeout_source := fst (push_frame r s)\<rparr>
      = s\<lparr>timestamp := timestamp s + 33333333, trace := trace s @ ?as, fault := fault s,
          timeout_source := (r = GST_FLOW_OK)\<rparr>"
      by (simp add: push_frame_pushes [OF Some True])
    moreover have "list_all loop_action ?as" "heap_actions ?as = []"
      by (simp_all add: heap_actions_def heap_action_def)
    ultimately show ?thesis by blast
  next
    case False
    have "(snd (push_frame r s))\<lparr>timeout_source := fst (push_frame r s)\<rparr>
      = s\<lparr>timestamp := timestamp s, trace := trace s @ [],
          fault := Some Read_out_of_bounds, timeout_source := False\<rparr>"
      by (simp add: push_frame_out_of_bounds [OF Some False])
    moreover have "list_all loop_action []" "heap_actions [] = []" by simp_all
    ultimately show ?thesis by blast
  qed
qed

lemma pushes_Cons2 [simp]: "pushes (a # b # tr) = pushes [a] @ pushes (b # tr)"
  by (simp add: pushes_def)

lemma heap_actions_Cons2 [simp]:
  "heap_actions (a # b # tr) = heap_actions [a] @ heap_actions (b # tr)"
  by (simp add: heap_actions_def)

subsection \<open>The clock invariant\<close>

lemma clock_inv_startup:
  assumes "startup_ok s"
  shows "clock_inv s"
proof -
  have "pushes (trace s) = []" and "timestamp s = 0"
    using assms startup_trace_quiet [of "trace s"] by (simp_all add: startup_ok_def)
  then show ?thesis by (simp add: clock_inv_def)
qed

lemma clock_inv_entry:
  assumes "clock_inv s"
  shows "clock_inv (act G_main_loop_run (s\<lparr>is_running := True\<rparr>))"
  using assms by (simp add: clock_inv_def)

lemma clock_inv_plane:
  assumes "clock_inv s"
  shows "clock_inv (publish_plane p s)"
proof -
  obtain n fr as fl where
    eq: "publish_plane p s = s\<lparr>bytes_used := n, frame := fr, trace := trace s @ as, fault := fl\<rparr>"
    and as: "pushes as = []"
    using publish_plane_shape [of p s] by blast
  show ?thesis
    unfolding eq using assms as by (simp add: clock_inv_def)
qed

lemma clock_inv_requeue:
  assumes "clock_inv s"
  shows "clock_inv (act Camera_queueRequest (act Request_reuse s))"
  using assms by (simp add: clock_inv_def)

lemma clock_step: "word_of_nat (n * 33333333) + (33333333 :: u64) = word_of_nat (Suc n * 33333333)"
  by simp

lemma clock_inv_tick:
  assumes "clock_inv s" and "timeout_source s"
  shows "clock_inv ((snd (push_frame r s))\<lparr>timeout_source := fst (push_frame r s)\<rparr>)"
proof (cases "frame s")
  case None
  show ?thesis
    using assms by (simp add: push_frame_null [OF None] clock_inv_def)
next
  case (Some f)
  show ?thesis
  proof (cases "bytes_used s \<le> length f")
    case False
    show ?thesis
      using assms by (simp add: push_frame_out_of_bounds [OF Some False] clock_inv_def)
  next
    case True
    let ?ps = "pushes (trace s)"
    let ?b = "\<lparr>payload = take (bytes_used s) f, pts = timestamp s, duration = 33333333\<rparr>"
    let ?s' = "(snd (push_frame r s))\<lparr>timeout_source := fst (push_frame r s)\<rparr>"
    have ts: "timestamp s = word_of_nat (length ?ps * 33333333)"
      and closed: "map (\<lambda>p. pts (fst p)) ?ps
                   = map (\<lambda>k. word_of_nat (k * 33333333)) [0..<length ?ps]"
      and oks: "list_all (\<lambda>p. snd p = GST_FLOW_OK) ?ps"
      using assms by (simp_all add: clock_inv_def)
    have tr: "pushes (trace ?s') = ?ps @ [(?b, r)]"
      by (simp add: push_frame_pushes [OF Some True] pushes_Cons [of "Push_buffer ?b r"])
    have 1: "timestamp ?s' = word_of_nat (length (pushes (trace ?s')) * 33333333)"
      unfolding tr using ts clock_step [of "length ?ps"]
      by (simp add: push_frame_pushes [OF Some True])
    have 2: "map (\<lambda>p. pts (fst p)) (pushes (trace ?s'))
             = map (\<lambda>k. word_of_nat (k * 33333333)) [0..<length (pushes (trace ?s'))]"
      unfolding tr using closed ts by simp
    have 3: "list_all (\<lambda>p. snd p = GST_FLOW_OK) (butlast (pushes (trace ?s')))"
      unfolding tr using oks by simp
    have 4: "timeout_source ?s' \<longrightarrow> list_all (\<lambda>p. snd p = GST_FLOW_OK) (pushes (trace ?s'))"
      unfolding tr using oks by (simp add: push_frame_pushes [OF Some True])
    show ?thesis
      unfolding clock_inv_def using 1 2 3 4 by blast
  qed
qed

lemma clock_inv_kill:
  assumes "clock_inv s"
  shows "clock_inv (s\<lparr>killed := True\<rparr>)"
  using assms by (simp add: clock_inv_def)

lemma clock_inv_handler:
  assumes "clock_inv s"
  shows "clock_inv (sigint_handler s)"
  using assms by (simp add: clock_inv_def sigint_handler_def Let_def)

lemma clock_inv_dispatch:
  assumes "clock_inv s"
  shows "clock_inv (dispatch ev s)"
  using assms
  by (rule dispatch_preserves)
    (simp_all add: clock_inv_plane clock_inv_requeue clock_inv_tick clock_inv_kill
      clock_inv_handler)

subsection \<open>Inside the main loop\<close>

lemma publish_plane_frame_None:
  assumes "frame (publish_plane p s) = None"
  shows "publish_plane p s = s"
proof (cases "fault s = None")
  case False
  then show ?thesis by (simp add: publish_plane_faulted)
next
  case ok: True
  show ?thesis
  proof (cases "frame s")
    case None
    from assms show ?thesis by (simp add: publish_plane_fresh [OF ok None])
  next
    case (Some f)
    show ?thesis
    proof (cases "clamped_count p \<le> length f")
      case True
      from assms show ?thesis by (simp add: publish_plane_fits [OF ok Some True])
    next
      case False
      from assms Some show ?thesis by (simp add: publish_plane_overflow [OF ok Some False])
    qed
  qed
qed

lemma loop_inv_entry:
  assumes "startup_ok s" and "timeout_source s"
  shows "loop_inv (act G_main_loop_run (s\<lparr>is_running := True\<rparr>))"
proof -
  have "pushes (trace s) = []" and "list_all startup_action (trace s)"
    and "sigint_disposition s = SIG_DFL"
    using assms(1) startup_trace_quiet [of "trace s"] by (simp_all add: startup_ok_def)
  then show ?thesis
    using assms(2) by (simp add: loop_inv_def list_all_iff)
qed

lemma loop_inv_plane:
  assumes "loop_inv s"
  shows "loop_inv (publish_plane p s)"
proof (cases "frame (publish_plane p s)")
  case None
  from publish_plane_frame_None [OF None] assms show ?thesis by simp
next
  case (Some f')
  obtain n fr as fl where
    eq: "publish_plane p s = s\<lparr>bytes_used := n, frame := fr, trace := trace s @ as, fault := fl\<rparr>"
    and as: "list_all loop_action as"
    using publish_plane_shape [of p s] by blast
  have fr: "fr = Some f'" using Some unfolding eq by simp
  show ?thesis
    unfolding eq fr using assms as by (auto simp: loop_inv_def list_all_iff)
qed

lemma loop_inv_requeue:
  assumes "loop_inv s"
  shows "loop_inv (act Camera_queueRequest (act Request_reuse s))"
  using assms by (simp add: loop_inv_def)

lemma loop_inv_tick:
  assumes "loop_inv s" and "timeout_source s"
  shows "loop_inv ((snd (push_frame r s))\<lparr>timeout_source := fst (push_frame r s)\<rparr>)"
proof (cases "frame s")
  case None
  show ?thesis
    using assms None by (simp add: push_frame_null [OF None] loop_inv_def)
next
  case (Some f)
  show ?thesis
  proof (cases "bytes_used s \<le> length f")
    case True
    show ?thesis
      using assms Some by (simp add: push_frame_pushes [OF Some True] loop_inv_def)
  next
    case False
    show ?thesis
      using assms Some by (simp add: push_frame_out_of_bounds [OF Some False] loop_inv_def)
  qed
qed

lemma loop_inv_kill:
  assumes "loop_inv s"
  shows "loop_inv (s\<lparr>killed := True\<rparr>)"
  using assms by (simp add: loop_inv_def)

lemma loop_inv_handler:
  assumes "loop_inv s" and "sigint_disposition s = Handler"
  shows "loop_inv (sigint_handler s)"
  using assms by (simp add: loop_inv_def)

lemma loop_inv_dispatch:
  assumes "loop_inv s"
  shows "loop_inv (dispatch ev s)"
  using assms
  by (rule dispatch_preserves)
    (simp_all add: loop_inv_plane loop_inv_requeue loop_inv_tick loop_inv_kill
      loop_inv_handler)

text \<open>No step of the loop clears the running flag, so the loop never returns.\<close>

lemma main_loop_iterate_not_returned:
  assumes "loop_inv s"
  shows "fst (main_loop_iterate evs s) \<noteq> Returned"
  using assms
proof (induction evs arbitrary: s)
  case Nil
  then show ?case by (simp add: loop_inv_def)
next
  case (Cons ev evs)
  have run: "is_running s" using Cons.prems by (simp add: loop_inv_def)
  from Cons.IH [OF loop_inv_dispatch [OF Cons.prems, of ev]] run
  show ?case by (simp add: Let_def)
qed

lemma main_loop_iterate_blocked:
  assumes "fst (main_loop_iterate evs s) = Blocked" and "\<not> killed s" and "fault s = None"
  shows "\<not> killed (snd (main_loop_iterate evs s)) \<and> fault (snd (main_loop_iterate evs s)) = None"
  using assms
proof (induction evs arbitrary: s)
  case Nil
  then show ?case by simp
next
  case (Cons ev evs)
  show ?case
  proof (cases "is_running s \<and> \<not> killed (dispatch ev s) \<and> fault (dispatch ev s) = None")
    case True
    then have eq: "main_loop_iterate (ev # evs) s = main_loop_iterate evs (dispatch ev s)"
      by (simp add: Let_def)
    from Cons.IH [of "dispatch ev s"] Cons.prems(1) True show ?thesis
      unfolding eq by simp
  next
    case False
    then have "fst (main_loop_iterate (ev # evs) s) \<noteq> Blocked"
      by (auto simp: Let_def)
    with Cons.prems(1) show ?thesis by simp
  qed
qed

text \<open>The two ways a run of \<open>main\<close> goes: it fails before the loop, or it enters the loop.\<close>

lemma main_cases:
  obtains (failed) s where "startup e = (Some EXIT_FAILURE, s)"
      and "main e evs = (Exited EXIT_FAILURE, s)" and "startup_ok s"
  | (looped) s0 where "startup e = (None, s0)" and "startup_ok s0" and "timeout_source s0"
      and "g_appsrc s0"
      and "snd (main e evs)
           = snd (main_loop_iterate evs (act G_main_loop_run (s0\<lparr>is_running := True\<rparr>)))"
      and "fst (main e evs)
           = (case fst (main_loop_iterate evs (act G_main_loop_run (s0\<lparr>is_running := True\<rparr>)))
              of Returned \<Rightarrow> Exited 0 | Blocked \<Rightarrow> Running
               | Signalled \<Rightarrow> Killed_by_signal | Faulted \<Rightarrow> Crashed)"
      and "fst (main_loop_iterate evs (act G_main_loop_run (s0\<lparr>is_running := True\<rparr>)))
           \<noteq> Returned"
proof -
  obtain r s where st: "startup e = (r, s)" by (cases "startup e")
  note ok = startup_startup_ok [OF st]
  show thesis
  proof (cases r)
    case (Some code)
    with ok have code: "code = EXIT_FAILURE" by simp
    have "main e evs = (Exited EXIT_FAILURE, s)"
      using st Some code by (simp add: main_def)
    with st Some code ok show thesis by (intro failed) simp_all
  next
    case None
    let ?s1 = "act G_main_loop_run (s\<lparr>is_running := True\<rparr>)"
    have inv: "loop_inv ?s1" using ok None by (simp add: loop_inv_entry)
    have nr: "fst (main_loop_iterate evs ?s1) \<noteq> Returned"
      using inv by (rule main_loop_iterate_not_returned)
    obtain x s2 where it: "main_loop_iterate evs ?s1 = (x, s2)"
      by (cases "main_loop_iterate evs ?s1")
    have m: "main e evs =
        (case x of Returned \<Rightarrow> (Exited 0, clean_up e s2) | Blocked \<Rightarrow> (Running, s2)
         | Signalled \<Rightarrow> (Killed_by_signal, s2) | Faulted \<Rightarrow> (Crashed, s2))"
      using st None it by (simp add: main_def g_main_loop_run_def)
    have x: "x \<noteq> Returned" using nr it by simp
    have 1: "snd (main e evs) = snd (main_loop_iterate evs ?s1)"
      unfolding m it using x by (cases x) simp_all
    have 2: "fst (main e evs)
           = (case fst (main_loop_iterate evs ?s1)
              of Returned \<Rightarrow> Exited 0 | Blocked \<Rightarrow> Running
               | Signalled \<Rightarrow> Killed_by_signal | Faulted \<Rightarrow> Crashed)"
      unfolding m it by (cases x) simp_all
    show thesis
      using st None ok 1 2 nr by (intro looped [of s]) simp_all
  qed
qed

lemma main_state_invariant:
  assumes "\<And>s. startup_ok s \<Longrightarrow> P s"
    and "\<And>s. startup_ok s \<Longrightarrow> timeout_source s \<Longrightarrow>
           P (act G_main_loop_run (s\<lparr>is_running := True\<rparr>))"
    and "\<And>ev s. P s \<Longrightarrow> P (dispatch ev s)"
  shows "P (snd (main e evs))"
proof (cases e evs rule: main_cases)
  case (failed s)
  then show ?thesis using assms(1) by simp
next
  case (looped s0)
  have "P (snd (main_loop_iterate evs (act G_main_loop_run (s0\<lparr>is_running := True\<rparr>))))"
    using assms(2) [OF looped(2,3)] assms(3) by (rule main_loop_iterate_preserves)
  then show ?thesis using looped(5) by simp
qed

subsection \<open>The concrete run\<close>

lemma demo_startup:
  "startup demo_env =
     (None,
      initial_state\<lparr>width := 640, height := 480, g_appsrc := True, timeout_source := True,
        trace := demo_trace\<rparr>)"
  by (simp add: startup_def demo_env_def camera_section_def gstreamer_section_def Let_def
      act_def acts_def initial_state_def FPS_def demo_trace_def)

lemma demo_main:
  "main demo_env evs =
     (case main_loop_iterate evs demo_loop_state of
        (Returned, s) \<Rightarrow> (Exited 0, clean_up demo_env s)
      | (Blocked, s) \<Rightarrow> (Running, s)
      | (Signalled, s) \<Rightarrow> (Killed_by_signal, s)
      | (Faulted, s) \<Rightarrow> (Crashed, s))"
  by (simp add: main_def demo_startup g_main_loop_run_def act_def initial_state_def
      demo_loop_state_def)

lemma demo_loop_state_fields [simp]:
  "frame demo_loop_state = None"
  "bytes_used demo_loop_state = 0"
  "timestamp demo_loop_state = 0"
  "fault demo_loop_state = None"
  "timeout_source demo_loop_state"
  "is_running demo_loop_state"
  "sigint_disposition demo_loop_state = SIG_DFL"
  "\<not> killed demo_loop_state"
  "g_appsrc demo_loop_state"
  "width demo_loop_state = 640"
  "height demo_loop_state = 480"
  "trace demo_loop_state = demo_trace @ [G_main_loop_run]"
  by (simp_all add: demo_loop_state_def)

lemma demo_completion:
  "requestComplete demo_request demo_loop_state =
     demo_loop_state\<lparr>frame := Some [1, 2, 3, 4], bytes_used := 4,
        trace := demo_trace @
          [G_main_loop_run, Malloc 4, Memcpy_to_frame 4, Request_reuse, Camera_queueRequest]\<rparr>"
proof -
  have cc: "clamped_count demo_plane = 4"
    by (simp add: clamped_count_def demo_plane_def)
  have "publish_plane demo_plane demo_loop_state =
      demo_loop_state\<lparr>bytes_used := 4, frame := Some [1, 2, 3, 4],
        trace := demo_trace @ [G_main_loop_run, Malloc 4, Memcpy_to_frame 4]\<rparr>"
    by (simp add: publish_plane_fresh cc) (simp add: demo_plane_def)
  then show ?thesis
    by (simp add: requestComplete_def demo_request_def publish_buffer_def act_def)
qed

lemma demo_trace_quiet: "pushes demo_trace = []" "heap_actions demo_trace = []"
  by (simp_all add: demo_trace_def pushes_def heap_actions_def heap_action_def)

lemma demo_run:
  "main demo_env demo_events =
    (Running,
     demo_loop_state\<lparr>frame := Some [1, 2, 3, 4], bytes_used := 4, timestamp := 99999999,
       timeout_source := False,
       trace := demo_trace @
         [G_main_loop_run, Malloc 4, Memcpy_to_frame 4, Request_reuse, Camera_queueRequest,
          Push_buffer \<lparr>payload = [1, 2, 3, 4], pts = 0, duration = 33333333\<rparr> GST_FLOW_OK,
          Push_buffer \<lparr>payload = [1, 2, 3, 4], pts = 33333333, duration = 33333333\<rparr>
            GST_FLOW_OK,
          Push_buffer \<lparr>payload = [1, 2, 3, 4], pts = 66666666, duration = 33333333\<rparr>
            GST_FLOW_ERROR,
          Print_failed_push GST_FLOW_ERROR]\<rparr>)"
  by (simp add: demo_main demo_events_def dispatch_def demo_completion push_frame_pushes)

subsection \<open>Presentation timestamps\<close>

lemma clock_inv_main: "clock_inv (snd (main e evs))"
  by (rule main_state_invariant)
    (simp_all add: clock_inv_startup clock_inv_entry clock_inv_dispatch)

lemma unat_u64: "x < 2 ^ 64 \<Longrightarrow> unat (word_of_nat x :: u64) = x"
  by (simp add: unat_of_nat)

lemma duration_value: "GST_SECOND div FPS = 33333333"
  by (simp add: GST_SECOND_def FPS_def)

text \<open>
  C1: in every run of \<open>main\<close>, with \<open>ps\<close> the buffers handed to the appsrc in order:
  the clock starts at 0; the \<open>i\<close>-th buffer carries \<open>i\<close> times \<open>10^9 div FPS\<close>
  nanoseconds (in 64-bit arithmetic); each buffer's timestamp is its predecessor's plus
  exactly \<open>10^9 div FPS\<close>, and every push but the last was accepted, so the successful
  pushes are consecutive; and as long as the 64-bit counter has not wrapped around, the
  timestamps are strictly increasing.
\<close>

theorem monotone_pts:
  assumes "ps = pushes (trace (snd (main e evs)))"
  shows "timestamp initial_state = 0
    \<and> (\<forall>i<length ps. pts (fst (ps ! i)) = word_of_nat (i * (GST_SECOND div FPS)))
    \<and> (\<forall>i. Suc i < length ps \<longrightarrow>
          pts (fst (ps ! Suc i)) = pts (fst (ps ! i)) + word_of_nat (GST_SECOND div FPS)
          \<and> snd (ps ! i) = GST_FLOW_OK)
    \<and> (length ps * (GST_SECOND div FPS) \<le> 2 ^ 64 \<longrightarrow>
          (\<forall>i j. i < j \<and> j < length ps \<longrightarrow> pts (fst (ps ! i)) < pts (fst (ps ! j))))"
proof -
  let ?d = "33333333 :: nat"
  have inv: "clock_inv (snd (main e evs))" by (rule clock_inv_main)
  have closed: "map (\<lambda>p. pts (fst p)) ps = map (\<lambda>k. word_of_nat (k * ?d)) [0..<length ps]"
    and oks: "list_all (\<lambda>p. snd p = GST_FLOW_OK) (butlast ps)"
    using inv unfolding assms clock_inv_def by simp_all
  have nth: "pts (fst (ps ! i)) = word_of_nat (i * ?d)" if "i < length ps" for i
  proof -
    have "map (\<lambda>p. pts (fst p)) ps ! i = map (\<lambda>k. word_of_nat (k * ?d)) [0..<length ps] ! i"
      using closed by simp
    then show ?thesis using that by simp
  qed
  have 1: "timestamp initial_state = 0" by (simp add: initial_state_def)
  have 2: "\<forall>i<length ps. pts (fst (ps ! i)) = word_of_nat (i * (GST_SECOND div FPS))"
    unfolding duration_value using nth by simp
  have 3: "pts (fst (ps ! Suc i)) = pts (fst (ps ! i)) + word_of_nat (GST_SECOND div FPS)
           \<and> snd (ps ! i) = GST_FLOW_OK" if "Suc i < length ps" for i
  proof -
    have "i < length (butlast ps)" using that by simp
    then have "snd (butlast ps ! i) = GST_FLOW_OK"
      using oks by (simp add: list_all_length)
    then have ok: "snd (ps ! i) = GST_FLOW_OK"
      using \<open>i < length (butlast ps)\<close> by (simp add: nth_butlast)
    have "pts (fst (ps ! Suc i)) = pts (fst (ps ! i)) + word_of_nat ?d"
      using nth [of i] nth [of "Suc i"] that by simp
    with ok show ?thesis unfolding duration_value by simp
  qed
  have 4: "pts (fst (ps ! i)) < pts (fst (ps ! j))"
    if "length ps * ?d \<le> 2 ^ 64" and "i < j" and "j < length ps" for i j
  proof -
    have "Suc j * ?d \<le> length ps * ?d" using that(3) by simp
    then have j: "j * ?d < 2 ^ 64" using that(1) by simp
    have i: "i * ?d < j * ?d" using that(2) by simp
    have "i * ?d < 2 ^ 64" using i j by (rule less_trans)
    then have ui: "unat (word_of_nat (i * ?d) :: u64) = i * ?d"
      by (rule unat_u64)
    have uj: "unat (word_of_nat (j * ?d) :: u64) = j * ?d"
      using j by (rule unat_u64)
    have "(word_of_nat (i * ?d) :: u64) < word_of_nat (j * ?d)"
      unfolding word_less_nat_alt ui uj using i .
    then show ?thesis using nth [of i] nth [of j] that by simp
  qed
  show ?thesis
    unfolding duration_value using 1 2 3 4 unfolding duration_value by blast
qed

theorem monotone_pts_witness:
  "length (pushes (trace (snd (main demo_env demo_events)))) = 3
   \<and> Suc 1 < length (pushes (trace (snd (main demo_env demo_events))))
   \<and> length (pushes (trace (snd (main demo_env demo_events)))) * (GST_SECOND div FPS) \<le> 2 ^ 64
   \<and> pts (fst (pushes (trace (snd (main demo_env demo_events))) ! 0)) = 0
   \<and> pts (fst (pushes (trace (snd (main demo_env demo_events))) ! 1)) = 33333333
   \<and> pts (fst (pushes (trace (snd (main demo_env demo_events))) ! 2)) = 66666666
   \<and> snd (pushes (trace (snd (main demo_env demo_events))) ! 1) = GST_FLOW_OK
   \<and> pts (fst (pushes (trace (snd (main demo_env demo_events))) ! 1))
       < pts (fst (pushes (trace (snd (main demo_env demo_events))) ! 2))"
proof -
  have ps: "pushes (trace (snd (main demo_env demo_events))) =
      [(\<lparr>payload = [1, 2, 3, 4], pts = 0, duration = 33333333\<rparr>, GST_FLOW_OK),
       (\<lparr>payload = [1, 2, 3, 4], pts = 33333333, duration = 33333333\<rparr>, GST_FLOW_OK),
       (\<lparr>payload = [1, 2, 3, 4], pts = 66666666, duration = 33333333\<rparr>, GST_FLOW_ERROR)]"
    by (simp add: demo_run demo_trace_quiet)
  from monotone_pts [OF refl, of demo_env demo_events] show ?thesis
    unfolding ps by (simp add: duration_value)
qed

subsection \<open>The statements after the main loop\<close>

lemma startup_action_not_cleanup:
  "\<not> startup_action Camera_stop" "\<not> startup_action Allocator_free"
  "\<not> startup_action Gst_app_src_end_of_stream"
  "\<not> startup_action (Gst_element_set_state GST_STATE_NULL)"
  "\<not> startup_action G_main_loop_run"
  "\<not> loop_action Camera_stop" "\<not> loop_action Allocator_free"
  "\<not> loop_action Gst_app_src_end_of_stream"
  "\<not> loop_action (Gst_element_set_state GST_STATE_NULL)"
  by (simp_all add: startup_action_def loop_action_def)

lemma main_trace_actions:
  "list_all (\<lambda>a. startup_action a \<or> loop_action a) (trace (snd (main e evs)))"
proof (cases e evs rule: main_cases)
  case (failed s)
  then show ?thesis by (simp add: startup_ok_def list_all_iff)
next
  case (looped s0)
  have "loop_inv (snd (main_loop_iterate evs (act G_main_loop_run (s0\<lparr>is_running := True\<rparr>))))"
    using loop_inv_entry [OF looped(2,3)] loop_inv_dispatch
    by (rule main_loop_iterate_preserves)
  then show ?thesis using looped(5) by (simp add: loop_inv_def)
qed

lemma main_sigint_default: "sigint_disposition (snd (main e evs)) = SIG_DFL"
proof (cases e evs rule: main_cases)
  case (failed s)
  then show ?thesis by (simp add: startup_ok_def)
next
  case (looped s0)
  have "loop_inv (snd (main_loop_iterate evs (act G_main_loop_run (s0\<lparr>is_running := True\<rparr>))))"
    using loop_inv_entry [OF looped(2,3)] loop_inv_dispatch
    by (rule main_loop_iterate_preserves)
  then show ?thesis using looped(5) by (simp add: loop_inv_def)
qed

lemma main_exit_codes:
  "fst (main e evs) = Exited code \<Longrightarrow>
   code = EXIT_FAILURE \<and> list_all startup_action (trace (snd (main e evs)))"
proof (cases e evs rule: main_cases)
  case (failed s)
  assume "fst (main e evs) = Exited code"
  with failed show ?thesis by (simp add: startup_ok_def)
next
  case (looped s0)
  assume "fst (main e evs) = Exited code"
  with looped(6,7) show ?thesis
    by (cases "fst (main_loop_iterate evs (act G_main_loop_run (s0\<lparr>is_running := True\<rparr>)))")
      simp_all
qed

lemma is_running_dispatch:
  assumes "is_running s"
  shows "is_running (dispatch ev s)"
proof -
  have plane: "is_running (publish_plane p s)" if "is_running s" for p s
  proof -
    obtain n fr as fl where
      "publish_plane p s = s\<lparr>bytes_used := n, frame := fr, trace := trace s @ as, fault := fl\<rparr>"
      using publish_plane_shape [of p s] by blast
    then show ?thesis using that by simp
  qed
  have tick: "is_running ((snd (push_frame r s))\<lparr>timeout_source := fst (push_frame r s)\<rparr>)"
    if "is_running s" for r s
  proof -
    obtain ts as fl c where
      "(snd (push_frame r s))\<lparr>timeout_source := fst (push_frame r s)\<rparr>
        = s\<lparr>timestamp := ts, trace := trace s @ as, fault := fl, timeout_source := c\<rparr>"
      using tick_shape [of r s] by blast
    then show ?thesis using that by simp
  qed
  show ?thesis
    using assms
    by (rule dispatch_preserves)
      (simp_all add: plane tick sigint_handler_def Let_def)
qed

lemma g_main_loop_run_not_returned: "fst (g_main_loop_run evs s) \<noteq> Returned"
proof -
  have "fst (main_loop_iterate evs s) \<noteq> Returned" if "is_running s" for s
    using that
  proof (induction evs arbitrary: s)
    case Nil
    then show ?case by simp
  next
    case (Cons ev evs)
    from Cons.IH [OF is_running_dispatch [OF Cons.prems, of ev]] Cons.prems
    show ?case by (simp add: Let_def)
  qed
  then show ?thesis by (simp add: g_main_loop_run_def)
qed

text \<open>
  C10: no step of the main loop clears its running flag, so \<open>g_main_loop_run\<close> never
  returns, from whatever state it is entered. In every run of \<open>main\<close> the disposition of
  SIGINT stays the default one, \<open>main\<close> never returns 0, and the trace never holds a
  camera stop, a free of the buffer pool, an end-of-stream or the pipeline's return to
  the null state; a run that has reached \<open>g_main_loop_run\<close> never returns from
  \<open>main\<close> at all.
\<close>

theorem cleanup_never_runs:
  "fst (g_main_loop_run evs s) \<noteq> Returned
   \<and> sigint_disposition (snd (main e evs)) = SIG_DFL
   \<and> fst (main e evs) \<noteq> Exited 0
   \<and> Camera_stop \<notin> set (trace (snd (main e evs)))
   \<and> Allocator_free \<notin> set (trace (snd (main e evs)))
   \<and> Gst_app_src_end_of_stream \<notin> set (trace (snd (main e evs)))
   \<and> Gst_element_set_state GST_STATE_NULL \<notin> set (trace (snd (main e evs)))
   \<and> (G_main_loop_run \<in> set (trace (snd (main e evs))) \<longrightarrow>
        (\<forall>code. fst (main e evs) \<noteq> Exited code))"
proof -
  note acts = main_trace_actions [of e evs, unfolded list_all_iff]
  have 1: "fst (main e evs) \<noteq> Exited 0"
    using main_exit_codes [of e evs 0] by (auto simp: EXIT_FAILURE_def)
  have 2: "Camera_stop \<notin> set (trace (snd (main e evs)))"
    using acts startup_action_not_cleanup by blast
  have 3: "Allocator_free \<notin> set (trace (snd (main e evs)))"
    using acts startup_action_not_cleanup by blast
  have 4: "Gst_app_src_end_of_stream \<notin> set (trace (snd (main e evs)))"
    using acts startup_action_not_cleanup by blast
  have 5: "Gst_element_set_state GST_STATE_NULL \<notin> set (trace (snd (main e evs)))"
    using acts startup_action_not_cleanup by blast
  have 6: "fst (main e evs) \<noteq> Exited code"
    if "G_main_loop_run \<in> set (trace (snd (main e evs)))" for code
    using that main_exit_codes [of e evs code] startup_action_not_cleanup(5)
    by (auto simp: list_all_iff)
  show ?thesis
    using g_main_loop_run_not_returned main_sigint_default 1 2 3 4 5 6 by blast
qed

theorem cleanup_never_runs_witness:
  "G_main_loop_run \<in> set (trace (snd (main demo_env demo_events)))
   \<and> fst (main demo_env demo_events) = Running
   \<and> fst (main demo_env demo_events) \<noteq> Exited 0
   \<and> Camera_stop \<notin> set (trace (snd (main demo_env demo_events)))
   \<and> Gst_app_src_end_of_stream \<notin> set (trace (snd (main demo_env demo_events)))"
proof -
  have a: "G_main_loop_run \<in> set (trace (snd (main demo_env demo_events)))"
    by (simp add: demo_run)
  have b: "fst (main demo_env demo_events) = Running"
    by (simp add: demo_run)
  from cleanup_never_runs [where e = demo_env and evs = demo_events and s = initial_state] a b
  show ?thesis by simp
qed

subsection \<open>The caps of the appsrc\<close>

text \<open>
  The text that \<open>snprintf\<close> leaves in \<open>pipeline_desc\<close>: its first 119 characters are
  the appsrc element with its literal caps whatever the host and the port are, so the cut
  at 1023 characters can only remove text behind the caps. A host of 761 characters or
  more is cut, and the port with it.
\<close>

lemma pipeline_format_head_caps:
  "pipeline_format_head =
     ''appsrc name=mysrc is-live=true block=true format=TIME '' @
     ''caps=video/x-raw,format=BGRx,width=800,height=600,framerate=30/1 '' @
     drop 119 pipeline_format_head"
  "length pipeline_format_head = 262"
  by (simp_all add: pipeline_format_head_def)

lemma desc_text_caps:
  "take 119 (desc_text (format_pipeline_desc ip port)) =
     ''appsrc name=mysrc is-live=true block=true format=TIME '' @
     ''caps=video/x-raw,format=BGRx,width=800,height=600,framerate=30/1 ''"
  "length (desc_text (format_pipeline_desc ip port)) \<le> 1023"
  by (simp_all add: format_pipeline_desc_def snprintf_pipeline_desc_def
      pipeline_format_head_def)

lemma desc_text_cut:
  assumes "761 \<le> length ip"
  shows "desc_text (format_pipeline_desc ip port) = pipeline_format_head @ take 761 ip"
  using assms
  by (simp add: format_pipeline_desc_def snprintf_pipeline_desc_def
      pipeline_format_head_caps(2))

lemma desc_text_demo:
  "desc_text (format_pipeline_desc ''192.168.1.50'' 5000) =
     pipeline_format_head @ ''192.168.1.50 port=5000 auto-multicast=false''"
proof -
  have d: "printf_d 5000 = ''5000''"
    by code_simp
  show ?thesis
    by (simp add: format_pipeline_desc_def snprintf_pipeline_desc_def d
        pipeline_format_head_caps(2) pipeline_format_tail_def)
qed

lemma allocate_all_size:
  "width (snd (allocate_all oks s)) = width s \<and> height (snd (allocate_all oks s)) = height s"
  by (induction oks arbitrary: s) simp_all

lemma create_requests_size:
  "width (snd (create_requests bufs s)) = width s
   \<and> height (snd (create_requests bufs s)) = height s"
proof (induction bufs arbitrary: s)
  case Nil
  show ?case by simp
next
  case (Cons b bufs)
  obtain created added where b: "b = (created, added)" by (cases b)
  show ?case
    using Cons.IH [of "acts [Camera_createRequest, Cerr ''Failed to create request''] s"]
      Cons.IH [of "acts [Camera_createRequest, Request_addBuffer,
                         Cerr ''Failed to add buffer''] s"]
      Cons.IH [of "acts [Camera_createRequest, Request_addBuffer] s"]
    by (auto simp: b split: prod.splits)
qed

lemma camera_section_size:
  assumes "camera_section e s = (None, s')"
  shows "width s' = cfg_width e \<and> height s' = cfg_height e"
proof -
  let ?s8 = "act (Cout_configuration (cfg_width e) (cfg_height e))
               ((act Camera_configure
                  (act Config_validate (act Camera_generateConfiguration
                    (act Camera_acquire (act CameraManager_get (act CameraManager_start s))))))
                \<lparr>width := cfg_width e, height := cfg_height e\<rparr>)"
  obtain b s9 where al: "allocate_all (allocate_results e) ?s8 = (b, s9)"
    by (cases "allocate_all (allocate_results e) ?s8")
  obtain n s10 where cr: "create_requests (pool e) s9 = (n, s10)"
    by (cases "create_requests (pool e) s9")
  have 9: "width s9 = cfg_width e \<and> height s9 = cfg_height e"
    using allocate_all_size [of "allocate_results e" ?s8] al by simp
  have 10: "width s10 = cfg_width e \<and> height s10 = cfg_height e"
    using create_requests_size [of "pool e" s9] cr 9 by simp
  have "s' = acts (replicate n Camera_queueRequest @
                   [Cout ''Streaming to'', Cout ''Streaming MJPEG RTP to'',
                    Cout ''Press Ctrl-C to stop''])
               (act Camera_start (act Connect_requestCompleted s10))"
    using assms al cr
    by (auto simp: camera_section_def Let_def unwind_def split: if_splits bool.splits)
  then show ?thesis using 10 by simp
qed

lemma gstreamer_section_launch:
  assumes "gstreamer_section e s = (None, s')"
  shows "width s' = width s \<and> height s' = height s
    \<and> Gst_parse_launch (format_pipeline_desc (dest_ip e) (dest_port e)) \<in> set (trace s')
    \<and> Gst_element_set_state GST_STATE_PLAYING \<in> set (trace s')"
  using assms by (auto simp: gstreamer_section_def Let_def split: if_splits)

lemma startup_launch:
  assumes "startup e = (None, s)"
  shows "width s = cfg_width e \<and> height s = cfg_height e
    \<and> Gst_parse_launch (format_pipeline_desc (dest_ip e) (dest_port e)) \<in> set (trace s)
    \<and> Gst_element_set_state GST_STATE_PLAYING \<in> set (trace s)"
proof -
  obtain r1 s1 where cs: "camera_section e initial_state = (r1, s1)"
    by (cases "camera_section e initial_state")
  have r1: "r1 = None" and gs: "gstreamer_section e s1 = (None, s)"
    using assms cs by (auto simp: startup_def split: if_splits option.splits)
  from camera_section_size [OF cs [unfolded r1]] gstreamer_section_launch [OF gs]
  show ?thesis by simp
qed

lemma dispatch_keeps:
  assumes "width s = w \<and> height s = h \<and> a \<in> set (trace s) \<and> b \<in> set (trace s)"
  shows "width (dispatch ev s) = w \<and> height (dispatch ev s) = h
         \<and> a \<in> set (trace (dispatch ev s)) \<and> b \<in> set (trace (dispatch ev s))"
proof -
  let ?P = "\<lambda>s. width s = w \<and> height s = h \<and> a \<in> set (trace s) \<and> b \<in> set (trace s)"
  have plane: "?P (publish_plane p s)" if "?P s" for p s
  proof -
    obtain n fr as fl where
      "publish_plane p s = s\<lparr>bytes_used := n, frame := fr, trace := trace s @ as, fault := fl\<rparr>"
      using publish_plane_shape [of p s] by blast
    then show ?thesis using that by simp
  qed
  have tick: "?P ((snd (push_frame r s))\<lparr>timeout_source := fst (push_frame r s)\<rparr>)"
    if "?P s" for r s
  proof -
    obtain ts as fl c where
      "(snd (push_frame r s))\<lparr>timeout_source := fst (push_frame r s)\<rparr>
        = s\<lparr>timestamp := ts, trace := trace s @ as, fault := fl, timeout_source := c\<rparr>"
      using tick_shape [of r s] by blast
    then show ?thesis using that by simp
  qed
  show ?thesis
  proof (rule dispatch_preserves [of ?P])
    show "?P s" using assms .
  qed (erule plane | erule tick | simp add: sigint_handler_def Let_def)+
qed

text \<open>
  C7, as the claim states it: the caps of the appsrc equal the camera's negotiated
  configuration. In \<open>demo_env\<close> the validated configuration is 640 by 480; the run
  stores that size in \<open>width\<close> and \<open>height\<close>, launches the pipeline with caps of 800 by
  600 and sets it to Playing.
\<close>

theorem caps_ignore_negotiated_size:
  "Gst_parse_launch (format_pipeline_desc ''192.168.1.50'' 5000)
     \<in> set (trace (snd (main demo_env [])))
   \<and> Gst_element_set_state GST_STATE_PLAYING \<in> set (trace (snd (main demo_env [])))
   \<and> caps_width (src_caps (format_pipeline_desc ''192.168.1.50'' 5000))
       \<noteq> unat (cfg_width demo_env)
   \<and> caps_height (src_caps (format_pipeline_desc ''192.168.1.50'' 5000))
       \<noteq> unat (cfg_height demo_env)
   \<and> width (snd (main demo_env [])) = cfg_width demo_env
   \<and> height (snd (main demo_env [])) = cfg_height demo_env"
  unfolding demo_main
  by (simp add: demo_trace_def format_pipeline_desc_def demo_env_def)

text \<open>
  C7, amended: in every run the pipeline is launched with the literal caps of the
  description (BGRx, 800 by 600, 30/1), whatever configuration the camera negotiated; a
  run that reaches the main loop has launched the pipeline with these caps and set it to
  Playing, and holds the negotiated width and height only in the globals \<open>width\<close> and
  \<open>height\<close>.
\<close>

theorem source_caps_are_literal:
  "(Gst_parse_launch d \<in> set (trace (snd (main e evs))) \<longrightarrow> src_caps d = literal_caps)
   \<and> (G_main_loop_run \<in> set (trace (snd (main e evs))) \<longrightarrow>
        Gst_parse_launch (format_pipeline_desc (dest_ip e) (dest_port e))
          \<in> set (trace (snd (main e evs)))
        \<and> Gst_element_set_state GST_STATE_PLAYING \<in> set (trace (snd (main e evs)))
        \<and> width (snd (main e evs)) = cfg_width e
        \<and> height (snd (main e evs)) = cfg_height e)"
proof -
  have 1: "src_caps d = literal_caps" if "Gst_parse_launch d \<in> set (trace (snd (main e evs)))"
  proof -
    have "startup_action (Gst_parse_launch d) \<or> loop_action (Gst_parse_launch d)"
      using main_trace_actions [of e evs] that by (simp add: list_all_iff)
    then show ?thesis by (simp add: startup_action_def loop_action_def)
  qed
  have 2: "Gst_parse_launch (format_pipeline_desc (dest_ip e) (dest_port e))
          \<in> set (trace (snd (main e evs)))
        \<and> Gst_element_set_state GST_STATE_PLAYING \<in> set (trace (snd (main e evs)))
        \<and> width (snd (main e evs)) = cfg_width e
        \<and> height (snd (main e evs)) = cfg_height e"
    if "G_main_loop_run \<in> set (trace (snd (main e evs)))"
  proof (cases e evs rule: main_cases)
    case (failed s)
    then have "startup_action G_main_loop_run"
      using that by (simp add: startup_ok_def list_all_iff)
    then show ?thesis by (simp add: startup_action_not_cleanup)
  next
    case (looped s0)
    let ?P = "\<lambda>s. width s = cfg_width e \<and> height s = cfg_height e
        \<and> Gst_parse_launch (format_pipeline_desc (dest_ip e) (dest_port e)) \<in> set (trace s)
        \<and> Gst_element_set_state GST_STATE_PLAYING \<in> set (trace s)"
    have "?P (act G_main_loop_run (s0\<lparr>is_running := True\<rparr>))"
      using startup_launch [OF looped(1)] by simp
    then have "?P (snd (main_loop_iterate evs (act G_main_loop_run (s0\<lparr>is_running := True\<rparr>))))"
      using dispatch_keeps by (rule main_loop_iterate_preserves)
    then show ?thesis using looped(5) by simp
  qed
  show ?thesis using 1 2 by blast
qed

theorem source_caps_are_literal_witness:
  "Gst_parse_launch (format_pipeline_desc ''192.168.1.50'' 5000)
     \<in> set (trace (snd (main demo_env demo_events)))
   \<and> G_main_loop_run \<in> set (trace (snd (main demo_env demo_events)))
   \<and> src_caps (format_pipeline_desc ''192.168.1.50'' 5000) = literal_caps
   \<and> caps_width literal_caps = 800 \<and> caps_height literal_caps = 600
   \<and> width (snd (main demo_env demo_events)) = 640
   \<and> height (snd (main demo_env demo_events)) = 480"
proof -
  have a: "Gst_parse_launch (format_pipeline_desc ''192.168.1.50'' 5000)
     \<in> set (trace (snd (main demo_env demo_events)))"
    by (simp add: demo_run demo_trace_def)
  have b: "G_main_loop_run \<in> set (trace (snd (main demo_env demo_events)))"
    by (simp add: demo_run)
  from source_caps_are_literal
    [of "format_pipeline_desc ''192.168.1.50'' 5000" demo_env demo_events] a b
  show ?thesis by (simp add: literal_caps_def demo_env_def)
qed

subsection \<open>SIGINT\<close>

text \<open>
  C6: the concrete run, interrupted by SIGINT after a frame has been published and pushed.
  The signal ends the process: no end-of-stream has been delivered to the appsrc, the
  camera has not been stopped, nothing has been freed.
\<close>

theorem sigint_kills_without_teardown:
  "fst (main demo_env [RequestCompleted demo_request, Tick GST_FLOW_OK, SIGINT])
     = Killed_by_signal
   \<and> trace (snd (main demo_env [RequestCompleted demo_request, Tick GST_FLOW_OK, SIGINT]))
     = demo_trace @
         [G_main_loop_run, Malloc 4, Memcpy_to_frame 4, Request_reuse, Camera_queueRequest,
          Push_buffer \<lparr>payload = [1, 2, 3, 4], pts = 0, duration = 33333333\<rparr> GST_FLOW_OK]
   \<and> Gst_app_src_end_of_stream
        \<notin> set (trace (snd (main demo_env
                              [RequestCompleted demo_request, Tick GST_FLOW_OK, SIGINT])))
   \<and> Camera_stop
        \<notin> set (trace (snd (main demo_env
                              [RequestCompleted demo_request, Tick GST_FLOW_OK, SIGINT])))"
  by (simp add: demo_main dispatch_def demo_completion push_frame_pushes demo_trace_def)

subsection \<open>The frame region\<close>

lemma heap_inv_None:
  "frame s = None \<Longrightarrow> heap_actions (trace s) = [] \<Longrightarrow> heap_inv s"
  by (simp add: heap_inv_def)

lemma heap_inv_Some:
  assumes "frame s = Some f" and "fault s = None \<longrightarrow> bytes_used s \<le> length f"
    and "heap_actions (trace s) =
           Malloc (length f) # Memcpy_to_frame (length f) # map Memcpy_to_frame ns"
    and "fault s = None \<longrightarrow> list_all (\<lambda>m. m \<le> length f) ns"
    and "fault s = Some Write_out_of_bounds \<longrightarrow> ns \<noteq> [] \<and> length f < last ns"
  shows "heap_inv s"
proof -
  have "heap_actions (trace s) =
             Malloc (length f) # Memcpy_to_frame (length f) # map Memcpy_to_frame ns
           \<and> (fault s = None \<longrightarrow> list_all (\<lambda>m. m \<le> length f) ns)
           \<and> (fault s = Some Write_out_of_bounds \<longrightarrow> ns \<noteq> [] \<and> length f < last ns)"
    using assms(3,4,5) by simp
  then have "\<exists>ns. heap_actions (trace s) =
             Malloc (length f) # Memcpy_to_frame (length f) # map Memcpy_to_frame ns
           \<and> (fault s = None \<longrightarrow> list_all (\<lambda>m. m \<le> length f) ns)
           \<and> (fault s = Some Write_out_of_bounds \<longrightarrow> ns \<noteq> [] \<and> length f < last ns)"
    by (rule exI [where x = ns])
  then show ?thesis
    unfolding heap_inv_def using assms(1,2) by simp
qed

lemma heap_inv_SomeD:
  assumes "heap_inv s" and "frame s = Some f"
  obtains ns where "heap_actions (trace s) =
           Malloc (length f) # Memcpy_to_frame (length f) # map Memcpy_to_frame ns"
    and "fault s = None \<longrightarrow> list_all (\<lambda>m. m \<le> length f) ns"
    and "fault s = Some Write_out_of_bounds \<longrightarrow> ns \<noteq> [] \<and> length f < last ns"
    and "fault s = None \<longrightarrow> bytes_used s \<le> length f"
  using assms unfolding heap_inv_def by auto

lemma heap_inv_same:
  assumes "heap_inv s" and "frame s' = frame s"
    and "heap_actions (trace s') = heap_actions (trace s)"
    and "fault s' = None \<longrightarrow> fault s = None \<and> bytes_used s' = bytes_used s"
    and "fault s' = Some Write_out_of_bounds \<longrightarrow> fault s = Some Write_out_of_bounds"
  shows "heap_inv s'"
proof (cases "frame s")
  case None
  then show ?thesis using assms(1,2,3) by (simp add: heap_inv_def)
next
  case (Some f)
  obtain ns where ns: "heap_actions (trace s) =
           Malloc (length f) # Memcpy_to_frame (length f) # map Memcpy_to_frame ns"
    and fit: "fault s = None \<longrightarrow> list_all (\<lambda>m. m \<le> length f) ns"
    and over: "fault s = Some Write_out_of_bounds \<longrightarrow> ns \<noteq> [] \<and> length f < last ns"
    and used: "fault s = None \<longrightarrow> bytes_used s \<le> length f"
    using assms(1) Some by (rule heap_inv_SomeD)
  show ?thesis
  proof (rule heap_inv_Some [where ns = ns])
    show "frame s' = Some f" using assms(2) Some by simp
    show "fault s' = None \<longrightarrow> bytes_used s' \<le> length f" using assms(4) used by simp
    show "heap_actions (trace s') =
           Malloc (length f) # Memcpy_to_frame (length f) # map Memcpy_to_frame ns"
      using assms(3) ns by simp
    show "fault s' = None \<longrightarrow> list_all (\<lambda>m. m \<le> length f) ns" using assms(4) fit by simp
    show "fault s' = Some Write_out_of_bounds \<longrightarrow> ns \<noteq> [] \<and> length f < last ns"
      using assms(5) over by simp
  qed
qed

lemma heap_inv_startup:
  assumes "startup_ok s"
  shows "heap_inv s"
  using assms startup_trace_quiet [of "trace s"] by (simp add: startup_ok_def heap_inv_def)

lemma heap_inv_entry:
  assumes "heap_inv s"
  shows "heap_inv (act G_main_loop_run (s\<lparr>is_running := True\<rparr>))"
  using assms by (rule heap_inv_same) simp_all

lemma diag_not_heap [simp]:
  "heap_actions (if c then [Cerr_payload_larger b n] else []) = []"
  by simp

lemma heap_inv_plane:
  assumes "heap_inv s"
  shows "heap_inv (publish_plane p s)"
proof (cases "fault s = None")
  case False
  then show ?thesis using assms by (simp add: publish_plane_faulted)
next
  case ok: True
  note le = clamped_count_le [of p]
  let ?n = "clamped_count p"
  show ?thesis
  proof (cases "frame s")
    case None
    have h: "heap_actions (trace s) = []" using assms None by (simp add: heap_inv_def)
    have len: "length (take ?n (plane_data p)) = ?n" using le by simp
    show ?thesis
    proof (rule heap_inv_Some [where ns = "[]"])
      show "frame (publish_plane p s) = Some (take ?n (plane_data p))"
        by (simp add: publish_plane_fresh [OF ok None])
      show "fault (publish_plane p s) = None \<longrightarrow>
            bytes_used (publish_plane p s) \<le> length (take ?n (plane_data p))"
        unfolding len by (simp add: publish_plane_fresh [OF ok None])
      show "heap_actions (trace (publish_plane p s)) =
            Malloc (length (take ?n (plane_data p))) #
            Memcpy_to_frame (length (take ?n (plane_data p))) # map Memcpy_to_frame []"
        unfolding len using h by (simp add: publish_plane_fresh [OF ok None])
      show "fault (publish_plane p s) = None \<longrightarrow>
            list_all (\<lambda>m. m \<le> length (take ?n (plane_data p))) []" by simp
      show "fault (publish_plane p s) = Some Write_out_of_bounds \<longrightarrow>
            [] \<noteq> [] \<and> length (take ?n (plane_data p)) < last []"
        using ok by (simp add: publish_plane_fresh [OF ok None])
    qed
  next
    case (Some f)
    obtain ns where
      ns: "heap_actions (trace s) =
             Malloc (length f) # Memcpy_to_frame (length f) # map Memcpy_to_frame ns"
      and fit0: "fault s = None \<longrightarrow> list_all (\<lambda>m. m \<le> length f) ns"
      using assms Some by (rule heap_inv_SomeD)
    have fit: "list_all (\<lambda>m. m \<le> length f) ns" using fit0 ok by simp
    show ?thesis
    proof (cases "?n \<le> length f")
      case True
      let ?f' = "take ?n (plane_data p) @ drop ?n f"
      have len: "length ?f' = length f" using le True by simp
      show ?thesis
      proof (rule heap_inv_Some [where ns = "ns @ [?n]"])
        show "frame (publish_plane p s) = Some ?f'"
          by (simp add: publish_plane_fits [OF ok Some True])
        show "fault (publish_plane p s) = None \<longrightarrow> bytes_used (publish_plane p s) \<le> length ?f'"
          unfolding len using True by (simp add: publish_plane_fits [OF ok Some True])
        show "heap_actions (trace (publish_plane p s)) =
              Malloc (length ?f') # Memcpy_to_frame (length ?f') #
              map Memcpy_to_frame (ns @ [?n])"
          unfolding len using ns by (simp add: publish_plane_fits [OF ok Some True])
        show "fault (publish_plane p s) = None \<longrightarrow>
              list_all (\<lambda>m. m \<le> length ?f') (ns @ [?n])"
          unfolding len using fit True by simp
        show "fault (publish_plane p s) = Some Write_out_of_bounds \<longrightarrow>
              ns @ [?n] \<noteq> [] \<and> length ?f' < last (ns @ [?n])"
          using ok by (simp add: publish_plane_fits [OF ok Some True])
      qed
    next
      case False
      show ?thesis
      proof (rule heap_inv_Some [where ns = "ns @ [?n]"])
        show "frame (publish_plane p s) = Some f"
          using Some by (simp add: publish_plane_overflow [OF ok Some False])
        show "fault (publish_plane p s) = None \<longrightarrow> bytes_used (publish_plane p s) \<le> length f"
          by (simp add: publish_plane_overflow [OF ok Some False])
        show "heap_actions (trace (publish_plane p s)) =
              Malloc (length f) # Memcpy_to_frame (length f) # map Memcpy_to_frame (ns @ [?n])"
          using ns by (simp add: publish_plane_overflow [OF ok Some False])
        show "fault (publish_plane p s) = None \<longrightarrow>
              list_all (\<lambda>m. m \<le> length f) (ns @ [?n])"
          by (simp add: publish_plane_overflow [OF ok Some False])
        show "fault (publish_plane p s) = Some Write_out_of_bounds \<longrightarrow>
              ns @ [?n] \<noteq> [] \<and> length f < last (ns @ [?n])"
          using False by simp
      qed
    qed
  qed
qed

lemma heap_inv_requeue:
  assumes "heap_inv s"
  shows "heap_inv (act Camera_queueRequest (act Request_reuse s))"
  using assms by (rule heap_inv_same) simp_all

lemma heap_inv_tick:
  assumes "heap_inv s"
  shows "heap_inv ((snd (push_frame r s))\<lparr>timeout_source := fst (push_frame r s)\<rparr>)"
proof -
  let ?s' = "(snd (push_frame r s))\<lparr>timeout_source := fst (push_frame r s)\<rparr>"
  obtain ts as fl c where
    eq: "?s' = s\<lparr>timestamp := ts, trace := trace s @ as, fault := fl, timeout_source := c\<rparr>"
    and as: "heap_actions as = []"
    using tick_shape [of r s] by blast
  have fl: "(fault ?s' = None \<longrightarrow> fault s = None)
            \<and> (fault ?s' = Some Write_out_of_bounds \<longrightarrow> fault s = Some Write_out_of_bounds)"
  proof (cases "frame s")
    case None
    then show ?thesis by (simp add: push_frame_null)
  next
    case (Some f)
    then show ?thesis
      by (cases "bytes_used s \<le> length f")
        (simp_all add: push_frame_pushes push_frame_out_of_bounds)
  qed
  show ?thesis
    using assms
  proof (rule heap_inv_same)
    show "fault ?s' = None \<longrightarrow> fault s = None \<and> bytes_used ?s' = bytes_used s"
      using fl unfolding eq by simp
    show "fault ?s' = Some Write_out_of_bounds \<longrightarrow> fault s = Some Write_out_of_bounds"
      using fl by simp
  qed (simp_all add: eq as)
qed

lemma heap_inv_kill:
  assumes "heap_inv s"
  shows "heap_inv (s\<lparr>killed := True\<rparr>)"
  using assms by (rule heap_inv_same) simp_all

lemma heap_inv_handler:
  assumes "heap_inv s"
  shows "heap_inv (sigint_handler s)"
  using assms by (rule heap_inv_same) (simp_all add: sigint_handler_def Let_def)

lemma heap_inv_dispatch:
  assumes "heap_inv s"
  shows "heap_inv (dispatch ev s)"
proof (rule dispatch_preserves [of heap_inv])
  show "heap_inv s" using assms .
qed (erule heap_inv_plane | erule heap_inv_requeue | erule heap_inv_tick
     | erule heap_inv_kill | erule heap_inv_handler)+

lemma heap_inv_main: "heap_inv (snd (main e evs))"
  by (rule main_state_invariant)
    (simp_all add: heap_inv_startup heap_inv_entry heap_inv_dispatch)

subsection \<open>One more tick\<close>

lemma main_loop_iterate_append:
  "main_loop_iterate (evs @ evs') s =
     (case main_loop_iterate evs s of
        (Blocked, s') \<Rightarrow> main_loop_iterate evs' s'
      | (x, s') \<Rightarrow> (x, s'))"
proof (induction evs arbitrary: s)
  case Nil
  show ?case by (cases evs') simp_all
next
  case (Cons ev evs)
  show ?case by (simp add: Let_def Cons.IH)
qed

lemma main_running:
  assumes "main e evs = (Running, s)"
  obtains s0 where "startup e = (None, s0)"
    and "main_loop_iterate evs (act G_main_loop_run (s0\<lparr>is_running := True\<rparr>)) = (Blocked, s)"
    and "loop_inv s" and "heap_inv s" and "\<not> killed s" and "fault s = None"
proof (cases e evs rule: main_cases)
  case (failed s')
  with assms show ?thesis by simp
next
  case (looped s0)
  let ?s1 = "act G_main_loop_run (s0\<lparr>is_running := True\<rparr>)"
  have s: "snd (main_loop_iterate evs ?s1) = s" using looped(5) assms by simp
  have "fst (main_loop_iterate evs ?s1) = Blocked"
    using looped(6) assms by (cases "fst (main_loop_iterate evs ?s1)") simp_all
  with s have it: "main_loop_iterate evs ?s1 = (Blocked, s)"
    by (cases "main_loop_iterate evs ?s1") simp
  have li: "loop_inv s"
    using main_loop_iterate_preserves [of loop_inv, OF loop_inv_entry [OF looped(2,3)]
        loop_inv_dispatch, of evs] s by simp
  have hi: "heap_inv s" using heap_inv_main [of e evs] assms by simp
  have "\<not> killed ?s1" and "fault ?s1 = None"
    using looped(2) by (simp_all add: startup_ok_def)
  from main_loop_iterate_blocked [of evs ?s1] it this
  have "\<not> killed s \<and> fault s = None" by simp
  with looped(1) it li hi show ?thesis by (intro that [of s0]) simp_all
qed

lemma main_snoc:
  assumes "main e evs = (Running, s)"
  shows "main e (evs @ [ev]) =
     (if killed (dispatch ev s) then (Killed_by_signal, dispatch ev s)
      else if fault (dispatch ev s) \<noteq> None then (Crashed, dispatch ev s)
      else (Running, dispatch ev s))"
proof -
  obtain s0 where st: "startup e = (None, s0)"
    and it: "main_loop_iterate evs (act G_main_loop_run (s0\<lparr>is_running := True\<rparr>)) = (Blocked, s)"
    and li: "loop_inv s"
    using assms by (rule main_running)
  have run: "is_running s" and run': "is_running (dispatch ev s)"
    using li loop_inv_dispatch [OF li, of ev] by (simp_all add: loop_inv_def)
  show ?thesis
    using st it run run'
    by (simp add: main_def g_main_loop_run_def main_loop_iterate_append Let_def)
qed

text \<open>
  C4: let a run of \<open>main\<close> be in its main loop, waiting, in state \<open>s\<close>. No frame has
  been published (the trace holds no copy into the frame region) exactly when \<open>frame\<close>
  is null; then no buffer has been pushed, the timeout source is still installed, and
  the next tick changes nothing: no buffer, the same clock, the same trace. Once
  \<open>frame\<close> is not null, every call of \<open>push_frame\<close> hands exactly one buffer to
  the appsrc: its payload is the first \<open>bytes_used\<close> bytes of the frame region and is
  \<open>bytes_used\<close> bytes long; and every tick that fires (the timeout source is still
  installed) is such a call.
\<close>

theorem pump_tick:
  assumes "main e evs = (Running, s)"
  shows "(frame s = None) = (heap_actions (trace s) = [])
    \<and> (frame s = None \<longrightarrow>
          pushes (trace s) = [] \<and> timeout_source s
          \<and> push_frame r s = (True, s)
          \<and> main e (evs @ [Tick r]) = (Running, s))
    \<and> (\<forall>f. frame s = Some f \<longrightarrow>
          bytes_used s \<le> length f
          \<and> length (take (bytes_used s) f) = bytes_used s
          \<and> push_frame r s =
              (r = GST_FLOW_OK,
               s\<lparr>timestamp := timestamp s + 33333333,
                 trace := trace s @
                   Push_buffer \<lparr>payload = take (bytes_used s) f, pts = timestamp s,
                                 duration = 33333333\<rparr> r #
                   (if r = GST_FLOW_OK then [] else [Print_failed_push r])\<rparr>)
          \<and> (timeout_source s \<longrightarrow>
               main e (evs @ [Tick r]) =
                 (Running,
                  s\<lparr>timestamp := timestamp s + 33333333,
                    timeout_source := (r = GST_FLOW_OK),
                    trace := trace s @
                      Push_buffer \<lparr>payload = take (bytes_used s) f, pts = timestamp s,
                                    duration = 33333333\<rparr> r #
                      (if r = GST_FLOW_OK then [] else [Print_failed_push r])\<rparr>)))"
proof -
  obtain s0 where li: "loop_inv s" and hi: "heap_inv s"
    and nk: "\<not> killed s" and nf: "fault s = None"
    using assms by (rule main_running)
  note snoc = main_snoc [OF assms, of "Tick r"]
  have 1: "(frame s = None) = (heap_actions (trace s) = [])"
    using hi by (auto simp: heap_inv_def split: option.splits)
  have 2: "pushes (trace s) = [] \<and> timeout_source s
          \<and> push_frame r s = (True, s)
          \<and> main e (evs @ [Tick r]) = (Running, s)" if none: "frame s = None"
  proof -
    have a: "pushes (trace s) = []" and b: "timeout_source s"
      using li none by (simp_all add: loop_inv_def)
    have c: "push_frame r s = (True, s)" using none by (rule push_frame_null)
    have "dispatch (Tick r) s = s" using b c by (simp add: dispatch_def)
    with snoc nk nf a b c show ?thesis by simp
  qed
  have 3: "bytes_used s \<le> length f
          \<and> length (take (bytes_used s) f) = bytes_used s
          \<and> push_frame r s =
              (r = GST_FLOW_OK,
               s\<lparr>timestamp := timestamp s + 33333333,
                 trace := trace s @
                   Push_buffer \<lparr>payload = take (bytes_used s) f, pts = timestamp s,
                                 duration = 33333333\<rparr> r #
                   (if r = GST_FLOW_OK then [] else [Print_failed_push r])\<rparr>)
          \<and> (timeout_source s \<longrightarrow>
               main e (evs @ [Tick r]) =
                 (Running,
                  s\<lparr>timestamp := timestamp s + 33333333,
                    timeout_source := (r = GST_FLOW_OK),
                    trace := trace s @
                      Push_buffer \<lparr>payload = take (bytes_used s) f, pts = timestamp s,
                                    duration = 33333333\<rparr> r #
                      (if r = GST_FLOW_OK then [] else [Print_failed_push r])\<rparr>))"
    if some: "frame s = Some f" for f
  proof -
    have le: "bytes_used s \<le> length f"
      using hi some nf by (simp add: heap_inv_def)
    note pf = push_frame_pushes [OF some le, of r]
    have d: "dispatch (Tick r) s =
        s\<lparr>timestamp := timestamp s + 33333333,
          timeout_source := (r = GST_FLOW_OK),
          trace := trace s @
            Push_buffer \<lparr>payload = take (bytes_used s) f, pts = timestamp s,
                          duration = 33333333\<rparr> r #
            (if r = GST_FLOW_OK then [] else [Print_failed_push r])\<rparr>"
      if "timeout_source s"
      using that by (simp add: dispatch_def pf)
    have m: "main e (evs @ [Tick r]) =
                 (Running,
                  s\<lparr>timestamp := timestamp s + 33333333,
                    timeout_source := (r = GST_FLOW_OK),
                    trace := trace s @
                      Push_buffer \<lparr>payload = take (bytes_used s) f, pts = timestamp s,
                                    duration = 33333333\<rparr> r #
                      (if r = GST_FLOW_OK then [] else [Print_failed_push r])\<rparr>)"
      if "timeout_source s"
      using snoc nk nf unfolding d [OF that] by simp
    show ?thesis
      using le pf m by simp
  qed
  show ?thesis using 1 2 3 by blast
qed

theorem pump_tick_witness:
  "main demo_env [] = (Running, demo_loop_state)
   \<and> frame demo_loop_state = None
   \<and> main demo_env ([] @ [Tick GST_FLOW_OK]) = (Running, demo_loop_state)
   \<and> main demo_env [RequestCompleted demo_request]
       = (Running, requestComplete demo_request demo_loop_state)
   \<and> frame (requestComplete demo_request demo_loop_state) = Some [1, 2, 3, 4]
   \<and> timeout_source (requestComplete demo_request demo_loop_state)
   \<and> bytes_used (requestComplete demo_request demo_loop_state) = 4
   \<and> pushes (trace (snd (main demo_env ([RequestCompleted demo_request] @ [Tick GST_FLOW_OK]))))
       = [(\<lparr>payload = [1, 2, 3, 4], pts = 0, duration = 33333333\<rparr>, GST_FLOW_OK)]"
proof -
  have a: "main demo_env [] = (Running, demo_loop_state)"
    by (simp add: demo_main)
  have b: "main demo_env [RequestCompleted demo_request]
       = (Running, requestComplete demo_request demo_loop_state)"
    by (simp add: demo_main dispatch_def demo_completion)
  have c: "frame (requestComplete demo_request demo_loop_state) = Some [1, 2, 3, 4]"
    "timeout_source (requestComplete demo_request demo_loop_state)"
    "bytes_used (requestComplete demo_request demo_loop_state) = 4"
    "timestamp (requestComplete demo_request demo_loop_state) = 0"
    "pushes (trace (requestComplete demo_request demo_loop_state)) = []"
    by (simp_all add: demo_completion demo_trace_quiet)
  from pump_tick [OF a, of GST_FLOW_OK] pump_tick [OF b, of GST_FLOW_OK] a b c
  show ?thesis by simp
qed

subsection \<open>Copies, allocations and diagnostics of a trace\<close>

lemma copies_append [simp]: "copies (xs @ ys) = copies xs @ copies ys"
  by (simp add: copies_def)

lemma copies_Nil [simp]: "copies [] = []"
  by (simp add: copies_def)

lemma allocations_append [simp]: "allocations (xs @ ys) = allocations xs @ allocations ys"
  by (simp add: allocations_def)

lemma allocations_Nil [simp]: "allocations [] = []"
  by (simp add: allocations_def)

lemma diagnostics_append [simp]: "diagnostics (xs @ ys) = diagnostics xs @ diagnostics ys"
  by (simp add: diagnostics_def)

lemma diagnostics_Nil [simp]: "diagnostics [] = []"
  by (simp add: diagnostics_def)

lemma observers_Cons:
  "copies (a # tr) = copies [a] @ copies tr"
  "allocations (a # tr) = allocations [a] @ allocations tr"
  "diagnostics (a # tr) = diagnostics [a] @ diagnostics tr"
  by (simp_all add: copies_def allocations_def diagnostics_def)

lemma observers_Cons2 [simp]:
  "copies (a # b # tr) = copies [a] @ copies (b # tr)"
  "allocations (a # b # tr) = allocations [a] @ allocations (b # tr)"
  "diagnostics (a # b # tr) = diagnostics [a] @ diagnostics (b # tr)"
  by (simp_all add: copies_def allocations_def diagnostics_def)

lemma observers_single [simp]:
  "copies [Memcpy_to_frame n] = [n]"
  "copies [Malloc n] = []"
  "copies [Cerr_payload_larger b n] = []"
  "copies [Request_reuse] = []"
  "copies [Camera_queueRequest] = []"
  "copies [Push_buffer buf r] = []"
  "copies [Print_failed_push r] = []"
  "copies [Gst_app_src_end_of_stream] = []"
  "copies [G_main_loop_run] = []"
  "allocations [Malloc n] = [n]"
  "allocations [Memcpy_to_frame n] = []"
  "allocations [Cerr_payload_larger b n] = []"
  "allocations [Request_reuse] = []"
  "allocations [Camera_queueRequest] = []"
  "allocations [Push_buffer buf r] = []"
  "allocations [Print_failed_push r] = []"
  "allocations [Gst_app_src_end_of_stream] = []"
  "allocations [G_main_loop_run] = []"
  "diagnostics [Cerr_payload_larger b n] = [(b, n)]"
  "diagnostics [Malloc n] = []"
  "diagnostics [Memcpy_to_frame n] = []"
  "diagnostics [Request_reuse] = []"
  "diagnostics [Camera_queueRequest] = []"
  by (simp_all add: copies_def allocations_def diagnostics_def)

lemma copies_map_Memcpy [simp]: "copies (map Memcpy_to_frame ns) = ns"
  by (induction ns) (simp_all add: copies_def)

lemma allocations_map_Memcpy [simp]: "allocations (map Memcpy_to_frame ns) = []"
  by (induction ns) (simp_all add: allocations_def)

lemma heap_observers_single:
  "copies [a] = copies (heap_actions [a]) \<and> allocations [a] = allocations (heap_actions [a])"
  by (cases a) (simp_all add: copies_def allocations_def heap_actions_def heap_action_def)

lemma heap_observers:
  "copies tr = copies (heap_actions tr) \<and> allocations tr = allocations (heap_actions tr)"
proof (induction tr)
  case Nil
  show ?case by simp
next
  case (Cons a tr)
  have "copies (a # tr) = copies [a] @ copies tr"
    and "allocations (a # tr) = allocations [a] @ allocations tr"
    and "heap_actions (a # tr) = heap_actions [a] @ heap_actions tr"
    by (rule observers_Cons, rule observers_Cons, rule heap_actions_Cons)
  then show ?case using Cons heap_observers_single [of a] by simp
qed

subsection \<open>All planes of a completed request\<close>

lemma fold_publish_plane_faulted:
  "fault s \<noteq> None \<Longrightarrow> fold publish_plane ps s = s"
  by (induction ps) (simp_all add: publish_plane_faulted)

lemma fold_publish_buffer_concat:
  "fold publish_buffer bs s = fold publish_plane (concat bs) s"
  by (induction bs arbitrary: s) (simp_all add: publish_buffer_def)

text \<open>What one run of the loop body leaves behind, whatever the region was.\<close>

lemma publish_plane_observed:
  assumes "fault s = None"
  shows "copies (trace (publish_plane p s)) = copies (trace s) @ [clamped_count p]"
    and "diagnostics (trace (publish_plane p s)) =
           diagnostics (trace s) @
           (if length (plane_data p) < unat (bytesused p)
            then [(bytesused p, length (plane_data p))] else [])"
    and "allocations (trace (publish_plane p s)) =
           allocations (trace s) @ (if frame s = None then [clamped_count p] else [])"
    and "bytes_used (publish_plane p s) = clamped_count p"
    and "fault (publish_plane p s) =
           (if (case frame s of None \<Rightarrow> True | Some f \<Rightarrow> clamped_count p \<le> length f)
            then None else Some Write_out_of_bounds)"
    and "\<exists>f'. frame (publish_plane p s) = Some f'
              \<and> length f' = (case frame s of None \<Rightarrow> clamped_count p | Some f \<Rightarrow> length f)
              \<and> (fault (publish_plane p s) = None \<longrightarrow>
                   take (clamped_count p) f' = take (clamped_count p) (plane_data p))"
proof -
  note le = clamped_count_le [of p]
  consider (fresh) "frame s = None"
    | (fits) f where "frame s = Some f" and "clamped_count p \<le> length f"
    | (overflow) f where "frame s = Some f" and "\<not> clamped_count p \<le> length f"
    by (cases "frame s") auto
  then have
    "copies (trace (publish_plane p s)) = copies (trace s) @ [clamped_count p]
     \<and> diagnostics (trace (publish_plane p s)) =
           diagnostics (trace s) @
           (if length (plane_data p) < unat (bytesused p)
            then [(bytesused p, length (plane_data p))] else [])
     \<and> allocations (trace (publish_plane p s)) =
           allocations (trace s) @ (if frame s = None then [clamped_count p] else [])
     \<and> bytes_used (publish_plane p s) = clamped_count p
     \<and> fault (publish_plane p s) =
           (if (case frame s of None \<Rightarrow> True | Some f \<Rightarrow> clamped_count p \<le> length f)
            then None else Some Write_out_of_bounds)
     \<and> (\<exists>f'. frame (publish_plane p s) = Some f'
              \<and> length f' = (case frame s of None \<Rightarrow> clamped_count p | Some f \<Rightarrow> length f)
              \<and> (fault (publish_plane p s) = None \<longrightarrow>
                   take (clamped_count p) f' = take (clamped_count p) (plane_data p)))"
  proof cases
    case fresh
    show ?thesis
      using le assms fresh by (simp add: publish_plane_fresh [OF assms fresh])
  next
    case (fits f)
    show ?thesis
      using le assms fits by (simp add: publish_plane_fits [OF assms fits])
  next
    case (overflow f)
    show ?thesis
      using le assms overflow by (simp add: publish_plane_overflow [OF assms overflow])
  qed
  then show "copies (trace (publish_plane p s)) = copies (trace s) @ [clamped_count p]"
    and "diagnostics (trace (publish_plane p s)) =
           diagnostics (trace s) @
           (if length (plane_data p) < unat (bytesused p)
            then [(bytesused p, length (plane_data p))] else [])"
    and "allocations (trace (publish_plane p s)) =
           allocations (trace s) @ (if frame s = None then [clamped_count p] else [])"
    and "bytes_used (publish_plane p s) = clamped_count p"
    and "fault (publish_plane p s) =
           (if (case frame s of None \<Rightarrow> True | Some f \<Rightarrow> clamped_count p \<le> length f)
            then None else Some Write_out_of_bounds)"
    and "\<exists>f'. frame (publish_plane p s) = Some f'
              \<and> length f' = (case frame s of None \<Rightarrow> clamped_count p | Some f \<Rightarrow> length f)
              \<and> (fault (publish_plane p s) = None \<longrightarrow>
                   take (clamped_count p) f' = take (clamped_count p) (plane_data p))"
    by blast+
qed

text \<open>
  The two loops of \<open>requestComplete\<close> over a list of planes: the first \<open>k\<close> planes are
  copied, each with its clamped count and its diagnostic; all of them unless a copy
  writes past the region, and then that copy was the last.
\<close>

lemma fold_publish_plane_processed:
  assumes "fault s = None"
  shows "\<exists>k\<le>length ps.
      copies (trace (fold publish_plane ps s))
        = copies (trace s) @ map clamped_count (take k ps)
    \<and> diagnostics (trace (fold publish_plane ps s))
        = diagnostics (trace s) @
          map (\<lambda>p. (bytesused p, length (plane_data p)))
            (filter (\<lambda>p. length (plane_data p) < unat (bytesused p)) (take k ps))
    \<and> (fault (fold publish_plane ps s) = None \<longrightarrow> k = length ps)
    \<and> (fault (fold publish_plane ps s) \<noteq> None \<longrightarrow>
          fault (fold publish_plane ps s) = Some Write_out_of_bounds \<and> 0 < k
          \<and> (\<exists>f. frame (fold publish_plane ps s) = Some f
                \<and> length f < clamped_count (ps ! (k - 1))))"
  using assms
proof (induction ps arbitrary: s)
  case Nil
  then show ?case by simp
next
  case (Cons p ps)
  let ?s1 = "publish_plane p s"
  note obs = publish_plane_observed [OF Cons.prems, of p]
  show ?case
  proof (cases "fault ?s1 = None")
    case True
    from Cons.IH [OF True] obtain k where ih: "k \<le> length ps
      \<and> copies (trace (fold publish_plane ps ?s1))
                = copies (trace ?s1) @ map clamped_count (take k ps)
      \<and> diagnostics (trace (fold publish_plane ps ?s1))
                = diagnostics (trace ?s1) @
                  map (\<lambda>p. (bytesused p, length (plane_data p)))
                    (filter (\<lambda>p. length (plane_data p) < unat (bytesused p)) (take k ps))
      \<and> (fault (fold publish_plane ps ?s1) = None \<longrightarrow> k = length ps)
      \<and> (fault (fold publish_plane ps ?s1) \<noteq> None \<longrightarrow>
          fault (fold publish_plane ps ?s1) = Some Write_out_of_bounds \<and> 0 < k
          \<and> (\<exists>f. frame (fold publish_plane ps ?s1) = Some f
                \<and> length f < clamped_count (ps ! (k - 1))))" ..
    note k = ih [THEN conjunct1]
      and c = ih [THEN conjunct2, THEN conjunct1]
      and d = ih [THEN conjunct2, THEN conjunct2, THEN conjunct1]
      and ok = ih [THEN conjunct2, THEN conjunct2, THEN conjunct2, THEN conjunct1]
      and bad = ih [THEN conjunct2, THEN conjunct2, THEN conjunct2, THEN conjunct2]
    have nth: "0 < k \<Longrightarrow> (p # ps) ! (Suc k - 1) = ps ! (k - 1)"
      by (cases k) simp_all
    have fold_eq: "fold publish_plane (p # ps) s = fold publish_plane ps ?s1" by simp
    have a1: "Suc k \<le> length (p # ps)" using k by simp
    have a2: "copies (trace (fold publish_plane (p # ps) s))
        = copies (trace s) @ map clamped_count (take (Suc k) (p # ps))"
      unfolding fold_eq using c obs(1) by simp
    have a3: "diagnostics (trace (fold publish_plane (p # ps) s))
        = diagnostics (trace s) @
          map (\<lambda>p. (bytesused p, length (plane_data p)))
            (filter (\<lambda>p. length (plane_data p) < unat (bytesused p)) (take (Suc k) (p # ps)))"
      unfolding fold_eq using d obs(2) by simp
    have a4: "fault (fold publish_plane (p # ps) s) = None \<longrightarrow> Suc k = length (p # ps)"
      unfolding fold_eq using ok by simp
    have a5: "fault (fold publish_plane (p # ps) s) \<noteq> None \<longrightarrow>
          fault (fold publish_plane (p # ps) s) = Some Write_out_of_bounds \<and> 0 < Suc k
          \<and> (\<exists>f. frame (fold publish_plane (p # ps) s) = Some f
                \<and> length f < clamped_count ((p # ps) ! (Suc k - 1)))"
      unfolding fold_eq
    proof (intro impI)
      assume "fault (fold publish_plane ps ?s1) \<noteq> None"
      with bad have w: "fault (fold publish_plane ps ?s1) = Some Write_out_of_bounds"
        and pos: "0 < k"
        and ex: "\<exists>f. frame (fold publish_plane ps ?s1) = Some f
                \<and> length f < clamped_count (ps ! (k - 1))"
        by simp_all
      show "fault (fold publish_plane ps ?s1) = Some Write_out_of_bounds \<and> 0 < Suc k
          \<and> (\<exists>f. frame (fold publish_plane ps ?s1) = Some f
                \<and> length f < clamped_count ((p # ps) ! (Suc k - 1)))"
        unfolding nth [OF pos] using w ex by simp
    qed
    show ?thesis
      by (rule exI [of _ "Suc k"], intro conjI) (fact a1, fact a2, fact a3, fact a4, fact a5)
  next
    case False
    have stop: "fold publish_plane (p # ps) s = ?s1"
      using False by (simp add: fold_publish_plane_faulted)
    have w: "fault ?s1 = Some Write_out_of_bounds"
      using False obs(5) by (simp split: if_splits)
    obtain f where f: "frame s = Some f" and nf: "\<not> clamped_count p \<le> length f"
      using False obs(5) by (cases "frame s") (simp_all split: if_splits)
    obtain f' where f': "frame ?s1 = Some f'" and len: "length f' = length f"
      using obs(6) f by auto
    have a1: "1 \<le> length (p # ps)" by simp
    have a2: "copies (trace (fold publish_plane (p # ps) s))
        = copies (trace s) @ map clamped_count (take 1 (p # ps))"
      unfolding stop using obs(1) by simp
    have a3: "diagnostics (trace (fold publish_plane (p # ps) s))
        = diagnostics (trace s) @
          map (\<lambda>p. (bytesused p, length (plane_data p)))
            (filter (\<lambda>p. length (plane_data p) < unat (bytesused p)) (take 1 (p # ps)))"
      unfolding stop using obs(2) by simp
    have a4: "fault (fold publish_plane (p # ps) s) = None \<longrightarrow> 1 = length (p # ps)"
      unfolding stop using False by blast
    have a5: "fault (fold publish_plane (p # ps) s) \<noteq> None \<longrightarrow>
          fault (fold publish_plane (p # ps) s) = Some Write_out_of_bounds \<and> 0 < (1::nat)
          \<and> (\<exists>f. frame (fold publish_plane (p # ps) s) = Some f
                \<and> length f < clamped_count ((p # ps) ! (1 - 1)))"
      unfolding stop using w f' len nf by simp
    show ?thesis
      by (rule exI [of _ 1], intro conjI) (fact a1, fact a2, fact a3, fact a4, fact a5)
  qed
qed

lemma fold_publish_plane_last:
  assumes "fault s = None" and "ps \<noteq> []" and "fault (fold publish_plane ps s) = None"
  shows "bytes_used (fold publish_plane ps s) = clamped_count (last ps)
    \<and> (\<exists>f. frame (fold publish_plane ps s) = Some f
          \<and> take (clamped_count (last ps)) f
              = take (clamped_count (last ps)) (plane_data (last ps)))"
proof -
  obtain qs p where ps: "ps = qs @ [p]"
    using assms(2) by (cases ps rule: rev_cases) simp_all
  let ?s1 = "fold publish_plane qs s"
  have eq: "fold publish_plane ps s = publish_plane p ?s1" by (simp add: ps)
  have ok1: "fault ?s1 = None"
  proof (rule ccontr)
    assume "fault ?s1 \<noteq> None"
    then have "publish_plane p ?s1 = ?s1" "fault (publish_plane p ?s1) \<noteq> None"
      by (simp_all add: publish_plane_faulted)
    with assms(3) eq show False by simp
  qed
  note obs = publish_plane_observed [OF ok1, of p]
  show ?thesis
    unfolding eq using obs(4) obs(6) assms(3) [unfolded eq] by (auto simp: ps)
qed

lemma fold_publish_plane_region_Some:
  assumes "frame s = Some f"
  shows "allocations (trace (fold publish_plane ps s)) = allocations (trace s)
    \<and> (\<exists>f'. frame (fold publish_plane ps s) = Some f' \<and> length f' = length f)"
proof -
  let ?P = "\<lambda>s'. allocations (trace s') = allocations (trace s)
                 \<and> (\<exists>f'. frame s' = Some f' \<and> length f' = length f)"
  have step: "?P (publish_plane p s')" if "?P s'" for p s'
  proof (cases "fault s' = None")
    case False
    then show ?thesis using that by (simp add: publish_plane_faulted)
  next
    case True
    note obs = publish_plane_observed [OF True, of p]
    from that obtain f' where "frame s' = Some f'" "length f' = length f" by blast
    then show ?thesis using that obs(3) obs(6) by auto
  qed
  have "?P s" using assms by simp
  then show ?thesis using step by (rule fold_publish_plane_preserves)
qed

lemma fold_publish_plane_region:
  assumes "fault s = None" and "ps \<noteq> []"
  shows "allocations (trace (fold publish_plane ps s))
           = allocations (trace s) @ (if frame s = None then [clamped_count (hd ps)] else [])
    \<and> (\<exists>f'. frame (fold publish_plane ps s) = Some f'
           \<and> length f' = (case frame s of None \<Rightarrow> clamped_count (hd ps) | Some f \<Rightarrow> length f))"
proof (cases "frame s")
  case (Some f)
  from fold_publish_plane_region_Some [OF Some, of ps] Some show ?thesis by simp
next
  case None
  obtain p qs where ps: "ps = p # qs" using assms(2) by (cases ps) simp_all
  note obs = publish_plane_observed [OF assms(1), of p]
  obtain f' where f': "frame (publish_plane p s) = Some f'" and len: "length f' = clamped_count p"
    using obs(6) None by auto
  from fold_publish_plane_region_Some [OF f', of qs] obs(3) None len
  show ?thesis by (simp add: ps)
qed

lemma fold_publish_plane_fault_Some:
  assumes "fault s = None" and "frame s = Some f"
  shows "(fault (fold publish_plane ps s) = None) = (\<forall>p\<in>set ps. clamped_count p \<le> length f)"
  using assms
proof (induction ps arbitrary: s f)
  case Nil
  then show ?case by simp
next
  case (Cons p ps)
  note obs = publish_plane_observed [OF Cons.prems(1), of p]
  show ?case
  proof (cases "clamped_count p \<le> length f")
    case True
    have ok: "fault (publish_plane p s) = None" using obs(5) Cons.prems(2) True by simp
    obtain f' where f': "frame (publish_plane p s) = Some f'" and len: "length f' = length f"
      using obs(6) Cons.prems(2) by auto
    from Cons.IH [OF ok f'] True len show ?thesis by simp
  next
    case False
    have bad: "fault (publish_plane p s) \<noteq> None" using obs(5) Cons.prems(2) False by simp
    then show ?thesis using False by (simp add: fold_publish_plane_faulted)
  qed
qed

lemma fold_publish_plane_fault:
  assumes "fault s = None" and "ps \<noteq> []"
  shows "(fault (fold publish_plane ps s) = None)
    = (\<forall>p\<in>set ps. clamped_count p
         \<le> (case frame s of None \<Rightarrow> clamped_count (hd ps) | Some f \<Rightarrow> length f))"
proof (cases "frame s")
  case (Some f)
  from fold_publish_plane_fault_Some [OF assms(1) Some, of ps] Some show ?thesis by simp
next
  case None
  obtain p qs where ps: "ps = p # qs" using assms(2) by (cases ps) simp_all
  note obs = publish_plane_observed [OF assms(1), of p]
  have ok: "fault (publish_plane p s) = None" using obs(5) None by simp
  obtain f' where f': "frame (publish_plane p s) = Some f'" and len: "length f' = clamped_count p"
    using obs(6) None by auto
  from fold_publish_plane_fault_Some [OF ok f', of qs] None len show ?thesis
    by (simp add: ps)
qed

lemma requestComplete_completed:
  assumes "req_status req = RequestComplete"
  shows "requestComplete req s =
     (if fault (fold publish_plane (concat (req_buffers req)) s) \<noteq> None
      then fold publish_plane (concat (req_buffers req)) s
      else act Camera_queueRequest
             (act Request_reuse (fold publish_plane (concat (req_buffers req)) s)))"
  using assms by (simp add: requestComplete_def Let_def fold_publish_buffer_concat)

lemma requestComplete_observed:
  assumes "req_status req = RequestComplete"
  shows "copies (trace (requestComplete req s))
           = copies (trace (fold publish_plane (concat (req_buffers req)) s))"
    and "diagnostics (trace (requestComplete req s))
           = diagnostics (trace (fold publish_plane (concat (req_buffers req)) s))"
    and "allocations (trace (requestComplete req s))
           = allocations (trace (fold publish_plane (concat (req_buffers req)) s))"
    and "fault (requestComplete req s) = fault (fold publish_plane (concat (req_buffers req)) s)"
    and "bytes_used (requestComplete req s)
           = bytes_used (fold publish_plane (concat (req_buffers req)) s)"
    and "frame (requestComplete req s) = frame (fold publish_plane (concat (req_buffers req)) s)"
  by (simp_all add: requestComplete_completed [OF assms])

lemma two_plane_completion:
  "requestComplete two_plane_request initial_state =
     initial_state\<lparr>frame := Some [5, 6, 7, 8], bytes_used := 4,
        trace := [Malloc 4, Memcpy_to_frame 4, Cerr_payload_larger 9 4, Memcpy_to_frame 4,
                  Request_reuse, Camera_queueRequest]\<rparr>"
proof -
  have cc: "clamped_count demo_plane = 4" "clamped_count oversized_plane = 4"
    by (simp_all add: clamped_count_def demo_plane_def oversized_plane_def)
  have ok: "fault initial_state = None" and fr: "frame initial_state = None"
    by (simp_all add: initial_state_def)
  have 1: "publish_plane demo_plane initial_state =
      initial_state\<lparr>bytes_used := 4, frame := Some [1, 2, 3, 4],
        trace := [Malloc 4, Memcpy_to_frame 4]\<rparr>"
    by (simp add: publish_plane_fresh [OF ok fr] cc) (simp add: demo_plane_def initial_state_def)
  have 2: "publish_plane oversized_plane
        (initial_state\<lparr>bytes_used := 4, frame := Some [1, 2, 3, 4],
           trace := [Malloc 4, Memcpy_to_frame 4]\<rparr>) =
      initial_state\<lparr>bytes_used := 4, frame := Some [5, 6, 7, 8],
        trace := [Malloc 4, Memcpy_to_frame 4, Cerr_payload_larger 9 4, Memcpy_to_frame 4]\<rparr>"
    by (simp add: publish_plane_fits [where f = "[1, 2, 3, 4]"] cc ok)
      (simp add: oversized_plane_def)
  show ?thesis
    by (simp add: requestComplete_def two_plane_request_def publish_buffer_def 1 2 act_def)
      (simp add: initial_state_def)
qed

text \<open>
  C3: a completion callback for a request with status Complete, entered without a fault,
  all of whose mapped spans are shorter than \<open>2^32\<close> bytes (libcamera keeps a plane's
  length in an \<open>unsigned int\<close>), with \<open>planes\<close> the planes of all its buffers in the order
  of the two loops. The callback copies the first \<open>k\<close> planes, each with exactly the
  reported \<open>bytesused\<close> clamped to the mapped length, and writes one diagnostic to
  \<open>std::cerr\<close> for each of them whose \<open>bytesused\<close> exceeds its mapped length and for no
  other. No copy reads past a mapped span or through a null pointer. When no copy writes
  past the frame region, every plane has been copied and the frame region starts with the
  clamped count of bytes of the last plane, which is what \<open>bytes_used\<close> then holds;
  otherwise the \<open>k\<close>-th copy is the one that did not fit the region, and the run ends
  there. All copies fit exactly when every clamped count is at most the size of the
  region (for a fresh region, the first plane's clamped count).
\<close>

theorem clamp_on_oversized_bytes_used:
  assumes "req_status req = RequestComplete" and "fault s = None"
    and "planes = concat (req_buffers req)"
    and "\<forall>p\<in>set planes. length (plane_data p) < 2 ^ 32"
  shows "\<exists>k\<le>length planes.
      copies (trace (requestComplete req s))
        = copies (trace s) @
          map (\<lambda>p. min (unat (bytesused p)) (length (plane_data p))) (take k planes)
    \<and> diagnostics (trace (requestComplete req s))
        = diagnostics (trace s) @
          map (\<lambda>p. (bytesused p, length (plane_data p)))
            (filter (\<lambda>p. length (plane_data p) < unat (bytesused p)) (take k planes))
    \<and> fault (requestComplete req s) \<noteq> Some Read_out_of_bounds
    \<and> fault (requestComplete req s) \<noteq> Some Null_pointer
    \<and> (fault (requestComplete req s) = None \<longrightarrow>
          k = length planes
          \<and> (planes \<noteq> [] \<longrightarrow>
               bytes_used (requestComplete req s)
                 = min (unat (bytesused (last planes))) (length (plane_data (last planes)))
               \<and> (\<exists>f. frame (requestComplete req s) = Some f
                     \<and> take (bytes_used (requestComplete req s)) f
                         = take (bytes_used (requestComplete req s))
                             (plane_data (last planes)))))
    \<and> (fault (requestComplete req s) \<noteq> None \<longrightarrow>
          0 < k
          \<and> (\<exists>f. frame (requestComplete req s) = Some f
                \<and> length f < min (unat (bytesused (planes ! (k - 1))))
                                 (length (plane_data (planes ! (k - 1))))))
    \<and> (planes \<noteq> [] \<longrightarrow>
          (fault (requestComplete req s) = None)
          = (\<forall>p\<in>set planes.
               min (unat (bytesused p)) (length (plane_data p))
               \<le> (case frame s of
                     None \<Rightarrow> min (unat (bytesused (hd planes))) (length (plane_data (hd planes)))
                   | Some f \<Rightarrow> length f)))"
proof -
  let ?s1 = "fold publish_plane planes s"
  let ?s' = "requestComplete req s"
  let ?n = "\<lambda>p. min (unat (bytesused p)) (length (plane_data p))"
  note obs = requestComplete_observed [OF assms(1), of s, folded assms(3)]
  have cc: "clamped_count p = ?n p" if "p \<in> set planes" for p
    using that assms(4) by (simp add: clamped_count_small)
  from fold_publish_plane_processed [OF assms(2), of planes]
  obtain k where ih: "k \<le> length planes
    \<and> copies (trace ?s1) = copies (trace s) @ map clamped_count (take k planes)
    \<and> diagnostics (trace ?s1)
        = diagnostics (trace s) @
          map (\<lambda>p. (bytesused p, length (plane_data p)))
            (filter (\<lambda>p. length (plane_data p) < unat (bytesused p)) (take k planes))
    \<and> (fault ?s1 = None \<longrightarrow> k = length planes)
    \<and> (fault ?s1 \<noteq> None \<longrightarrow>
          fault ?s1 = Some Write_out_of_bounds \<and> 0 < k
          \<and> (\<exists>f. frame ?s1 = Some f \<and> length f < clamped_count (planes ! (k - 1))))" ..
  note k = ih [THEN conjunct1]
    and c = ih [THEN conjunct2, THEN conjunct1]
    and d = ih [THEN conjunct2, THEN conjunct2, THEN conjunct1]
    and ok = ih [THEN conjunct2, THEN conjunct2, THEN conjunct2, THEN conjunct1]
    and bad = ih [THEN conjunct2, THEN conjunct2, THEN conjunct2, THEN conjunct2]
  have map_eq: "map clamped_count (take k planes) = map ?n (take k planes)"
    by (rule map_cong [OF refl]) (auto dest: in_set_takeD simp: cc)
  have a1: "k \<le> length planes" by (rule k)
  have a2: "copies (trace ?s') = copies (trace s) @ map ?n (take k planes)"
    unfolding obs(1) using c map_eq by simp
  have a3: "diagnostics (trace ?s')
        = diagnostics (trace s) @
          map (\<lambda>p. (bytesused p, length (plane_data p)))
            (filter (\<lambda>p. length (plane_data p) < unat (bytesused p)) (take k planes))"
    unfolding obs(2) by (rule d)
  have a4: "fault ?s' \<noteq> Some Read_out_of_bounds"
    unfolding obs(4) using bad by (cases "fault ?s1 = None") simp_all
  have a5: "fault ?s' \<noteq> Some Null_pointer"
    unfolding obs(4) using bad by (cases "fault ?s1 = None") simp_all
  have a6: "fault ?s' = None \<longrightarrow>
          k = length planes
          \<and> (planes \<noteq> [] \<longrightarrow>
               bytes_used ?s' = ?n (last planes)
               \<and> (\<exists>f. frame ?s' = Some f
                     \<and> take (bytes_used ?s') f = take (bytes_used ?s') (plane_data (last planes))))"
  proof (intro impI conjI)
    assume f0: "fault ?s' = None"
    then have f1: "fault ?s1 = None" unfolding obs(4) .
    show "k = length planes" using ok f1 by simp
    assume ne: "planes \<noteq> []"
    note l = fold_publish_plane_last [OF assms(2) ne f1]
    have lcc: "clamped_count (last planes) = ?n (last planes)" using ne by (simp add: cc)
    show "bytes_used ?s' = ?n (last planes)" unfolding obs(5) using l lcc by simp
    then show "\<exists>f. frame ?s' = Some f
                     \<and> take (bytes_used ?s') f = take (bytes_used ?s') (plane_data (last planes))"
      unfolding obs(6) using l lcc by simp
  qed
  have a7: "fault ?s' \<noteq> None \<longrightarrow>
          0 < k \<and> (\<exists>f. frame ?s' = Some f \<and> length f < ?n (planes ! (k - 1)))"
  proof (intro impI)
    assume "fault ?s' \<noteq> None"
    then have f1: "fault ?s1 \<noteq> None" unfolding obs(4) .
    with bad have pos: "0 < k"
      and ex: "\<exists>f. frame ?s1 = Some f \<and> length f < clamped_count (planes ! (k - 1))"
      by simp_all
    have "planes ! (k - 1) \<in> set planes" using pos k by simp
    then have "clamped_count (planes ! (k - 1)) = ?n (planes ! (k - 1))" by (rule cc)
    with pos ex show "0 < k \<and> (\<exists>f. frame ?s' = Some f \<and> length f < ?n (planes ! (k - 1)))"
      unfolding obs(6) by simp
  qed
  have a8: "planes \<noteq> [] \<longrightarrow>
          (fault ?s' = None)
          = (\<forall>p\<in>set planes.
               ?n p \<le> (case frame s of None \<Rightarrow> ?n (hd planes) | Some f \<Rightarrow> length f))"
  proof (intro impI)
    assume ne: "planes \<noteq> []"
    have hcc: "clamped_count (hd planes) = ?n (hd planes)" using ne by (simp add: cc)
    have "(\<forall>p\<in>set planes. clamped_count p
              \<le> (case frame s of None \<Rightarrow> clamped_count (hd planes) | Some f \<Rightarrow> length f))
        = (\<forall>p\<in>set planes.
               ?n p \<le> (case frame s of None \<Rightarrow> ?n (hd planes) | Some f \<Rightarrow> length f))"
      unfolding hcc by (rule ball_cong [OF refl]) (simp add: cc)
    then show "(fault ?s' = None)
          = (\<forall>p\<in>set planes.
               ?n p \<le> (case frame s of None \<Rightarrow> ?n (hd planes) | Some f \<Rightarrow> length f))"
      unfolding obs(4) using fold_publish_plane_fault [OF assms(2) ne] by simp
  qed
  show ?thesis
    by (rule exI [of _ k], intro conjI)
      (fact a1, fact a2, fact a3, fact a4, fact a5, fact a6, fact a7, fact a8)
qed

theorem clamp_on_oversized_bytes_used_witness:
  "req_status two_plane_request = RequestComplete
   \<and> fault initial_state = None
   \<and> concat (req_buffers two_plane_request) = [demo_plane, oversized_plane]
   \<and> length (plane_data demo_plane) < 2 ^ 32
   \<and> length (plane_data oversized_plane) < 2 ^ 32
   \<and> length (plane_data oversized_plane) < unat (bytesused oversized_plane)
   \<and> copies (trace (requestComplete two_plane_request initial_state)) = [4, 4]
   \<and> diagnostics (trace (requestComplete two_plane_request initial_state)) = [(9, 4)]
   \<and> fault (requestComplete two_plane_request initial_state) = None
   \<and> bytes_used (requestComplete two_plane_request initial_state) = 4
   \<and> frame (requestComplete two_plane_request initial_state) = Some [5, 6, 7, 8]"
proof -
  have a: "req_status two_plane_request = RequestComplete"
    by (simp add: two_plane_request_def)
  have b: "fault initial_state = None" by (simp add: initial_state_def)
  have c: "[demo_plane, oversized_plane] = concat (req_buffers two_plane_request)"
    by (simp add: two_plane_request_def)
  have d: "\<forall>p\<in>set [demo_plane, oversized_plane]. length (plane_data p) < 2 ^ 32"
    by (simp add: demo_plane_def oversized_plane_def)
  have e: "copies (trace initial_state) = []" "diagnostics (trace initial_state) = []"
    by (simp_all add: initial_state_def)
  from clamp_on_oversized_bytes_used [OF a b c d] a b c d e
  show ?thesis
    by (simp add: two_plane_completion) (simp add: demo_plane_def oversized_plane_def)
qed

subsection \<open>The copies of a whole run\<close>

lemma completed_planes_simps [simp]:
  "completed_planes (Tick r) = []"
  "completed_planes SIGINT = []"
  "completed_planes (RequestCompleted req) =
     (if req_status req = RequestComplete then concat (req_buffers req) else [])"
  by (simp_all add: completed_planes_def)

lemma published_planes_simps [simp]:
  "published_planes [] = []"
  "published_planes (ev # evs) = completed_planes ev @ published_planes evs"
  by (simp_all add: published_planes_def)

lemma heap_quiet_copies: "heap_actions as = [] \<Longrightarrow> copies as = []"
  using heap_observers [of as] by simp

lemma dispatch_copies:
  assumes "fault s = None"
  shows "\<exists>k\<le>length (completed_planes ev).
      copies (trace (dispatch ev s))
        = copies (trace s) @ map clamped_count (take k (completed_planes ev))
    \<and> (fault (dispatch ev s) = None \<longrightarrow> k = length (completed_planes ev))"
proof (cases ev)
  case (Tick r)
  have "copies (trace (dispatch (Tick r) s)) = copies (trace s)"
  proof (cases "timeout_source s")
    case False
    then show ?thesis by (simp add: dispatch_def)
  next
    case True
    obtain ts as fl c where
      eq: "(snd (push_frame r s))\<lparr>timeout_source := fst (push_frame r s)\<rparr>
          = s\<lparr>timestamp := ts, trace := trace s @ as, fault := fl, timeout_source := c\<rparr>"
      and as: "heap_actions as = []"
      using tick_shape [of r s] by blast
    have "dispatch (Tick r) s = (snd (push_frame r s))\<lparr>timeout_source := fst (push_frame r s)\<rparr>"
      using True by (simp add: dispatch_def split: prod.splits)
    then show ?thesis unfolding eq using heap_quiet_copies [OF as] by simp
  qed
  then show ?thesis by (simp add: Tick)
next
  case SIGINT
  have "copies (trace (dispatch SIGINT s)) = copies (trace s)"
    by (simp add: dispatch_def sigint_handler_def Let_def split: sig_disposition.splits)
  then show ?thesis by (simp add: SIGINT)
next
  case (RequestCompleted req)
  show ?thesis
  proof (cases "req_status req = RequestComplete")
    case False
    then show ?thesis
      by (simp add: RequestCompleted dispatch_def requestComplete_not_complete)
  next
    case True
    let ?planes = "concat (req_buffers req)"
    note obs = requestComplete_observed [OF True, of s]
    from fold_publish_plane_processed [OF assms, of ?planes]
    obtain k where ih: "k \<le> length ?planes
      \<and> copies (trace (fold publish_plane ?planes s))
          = copies (trace s) @ map clamped_count (take k ?planes)
      \<and> diagnostics (trace (fold publish_plane ?planes s))
        = diagnostics (trace s) @
          map (\<lambda>p. (bytesused p, length (plane_data p)))
            (filter (\<lambda>p. length (plane_data p) < unat (bytesused p)) (take k ?planes))
      \<and> (fault (fold publish_plane ?planes s) = None \<longrightarrow> k = length ?planes)
      \<and> (fault (fold publish_plane ?planes s) \<noteq> None \<longrightarrow>
          fault (fold publish_plane ?planes s) = Some Write_out_of_bounds \<and> 0 < k
          \<and> (\<exists>f. frame (fold publish_plane ?planes s) = Some f
                \<and> length f < clamped_count (?planes ! (k - 1))))" ..
    have d: "dispatch ev s = requestComplete req s"
      by (simp add: RequestCompleted dispatch_def)
    have cp: "completed_planes ev = ?planes"
      using True by (simp add: RequestCompleted)
    have a1: "k \<le> length (completed_planes ev)"
      unfolding cp by (rule ih [THEN conjunct1])
    have a2: "copies (trace (dispatch ev s))
        = copies (trace s) @ map clamped_count (take k (completed_planes ev))"
      unfolding cp d obs(1) by (rule ih [THEN conjunct2, THEN conjunct1])
    have a3: "fault (dispatch ev s) = None \<longrightarrow> k = length (completed_planes ev)"
      unfolding cp d obs(4)
      by (rule ih [THEN conjunct2, THEN conjunct2, THEN conjunct2, THEN conjunct1])
    show ?thesis
      by (rule exI [of _ k], intro conjI) (fact a1, fact a2, fact a3)
  qed
qed

lemma main_loop_iterate_copies:
  assumes "fault s = None"
  shows "\<exists>k\<le>length (published_planes evs).
      copies (trace (snd (main_loop_iterate evs s)))
        = copies (trace s) @ map clamped_count (take k (published_planes evs))
    \<and> (fst (main_loop_iterate evs s) = Blocked \<longrightarrow> k = length (published_planes evs))"
  using assms
proof (induction evs arbitrary: s)
  case Nil
  then show ?case by simp
next
  case (Cons ev evs)
  let ?cp = "completed_planes ev"
  let ?pp = "published_planes evs"
  show ?case
  proof (cases "is_running s")
    case False
    have a1: "0 \<le> length (published_planes (ev # evs))" by simp
    have a2: "copies (trace (snd (main_loop_iterate (ev # evs) s)))
        = copies (trace s) @ map clamped_count (take 0 (published_planes (ev # evs)))"
      using False by simp
    have a3: "fst (main_loop_iterate (ev # evs) s) = Blocked
              \<longrightarrow> 0 = length (published_planes (ev # evs))"
      using False by simp
    show ?thesis
      by (rule exI [of _ 0], intro conjI) (fact a1, fact a2, fact a3)
  next
    case run: True
    let ?s1 = "dispatch ev s"
    from dispatch_copies [OF Cons.prems, of ev]
    obtain k1 where d: "k1 \<le> length ?cp
      \<and> copies (trace ?s1) = copies (trace s) @ map clamped_count (take k1 ?cp)
      \<and> (fault ?s1 = None \<longrightarrow> k1 = length ?cp)" ..
    note k1 = d [THEN conjunct1] and c1 = d [THEN conjunct2, THEN conjunct1]
      and full1 = d [THEN conjunct2, THEN conjunct2]
    show ?thesis
    proof (cases "killed ?s1 \<or> fault ?s1 \<noteq> None")
      case True
      have res: "snd (main_loop_iterate (ev # evs) s) = ?s1"
        and out: "fst (main_loop_iterate (ev # evs) s) \<noteq> Blocked"
        using run True by (auto simp: Let_def)
      have a1: "k1 \<le> length (published_planes (ev # evs))" using k1 by simp
      have a2: "copies (trace (snd (main_loop_iterate (ev # evs) s)))
          = copies (trace s) @ map clamped_count (take k1 (published_planes (ev # evs)))"
        unfolding res using c1 k1 by simp
      have a3: "fst (main_loop_iterate (ev # evs) s) = Blocked
                \<longrightarrow> k1 = length (published_planes (ev # evs))"
        using out by simp
      show ?thesis
        by (rule exI [of _ k1], intro conjI) (fact a1, fact a2, fact a3)
    next
      case False
      then have nk: "\<not> killed ?s1" and ok: "fault ?s1 = None" by simp_all
      have eq: "main_loop_iterate (ev # evs) s = main_loop_iterate evs ?s1"
        using run nk ok by (simp add: Let_def)
      have k1_full: "k1 = length ?cp" using full1 ok by simp
      from Cons.IH [OF ok]
      obtain k2 where ih: "k2 \<le> length ?pp
        \<and> copies (trace (snd (main_loop_iterate evs ?s1)))
            = copies (trace ?s1) @ map clamped_count (take k2 ?pp)
        \<and> (fst (main_loop_iterate evs ?s1) = Blocked \<longrightarrow> k2 = length ?pp)" ..
      note k2 = ih [THEN conjunct1] and c2 = ih [THEN conjunct2, THEN conjunct1]
        and full2 = ih [THEN conjunct2, THEN conjunct2]
      have a1: "length ?cp + k2 \<le> length (published_planes (ev # evs))" using k2 by simp
      have a2: "copies (trace (snd (main_loop_iterate (ev # evs) s)))
          = copies (trace s) @
            map clamped_count (take (length ?cp + k2) (published_planes (ev # evs)))"
        unfolding eq using c2 c1 k1_full by simp
      have a3: "fst (main_loop_iterate (ev # evs) s) = Blocked
                \<longrightarrow> length ?cp + k2 = length (published_planes (ev # evs))"
        unfolding eq using full2 by simp
      show ?thesis
        by (rule exI [of _ "length ?cp + k2"], intro conjI) (fact a1, fact a2, fact a3)
    qed
  qed
qed

lemma main_copies:
  "\<exists>k\<le>length (published_planes evs).
      copies (trace (snd (main e evs))) = map clamped_count (take k (published_planes evs))
    \<and> (fst (main e evs) = Running \<longrightarrow> k = length (published_planes evs))"
proof (cases e evs rule: main_cases)
  case (failed s)
  have "copies (trace s) = []"
    using failed(3) startup_trace_quiet [of "trace s"] heap_quiet_copies [of "trace s"]
    by (simp add: startup_ok_def)
  then have a2: "copies (trace (snd (main e evs)))
      = map clamped_count (take 0 (published_planes evs))"
    using failed(2) by simp
  have a1: "0 \<le> length (published_planes evs)" by simp
  have a3: "fst (main e evs) = Running \<longrightarrow> 0 = length (published_planes evs)"
    using failed(2) by simp
  show ?thesis
    by (rule exI [of _ 0], intro conjI) (fact a1, fact a2, fact a3)
next
  case (looped s0)
  let ?s1 = "act G_main_loop_run (s0\<lparr>is_running := True\<rparr>)"
  have ok: "fault ?s1 = None" using looped(2) by (simp add: startup_ok_def)
  have none: "copies (trace ?s1) = []"
    using looped(2) startup_trace_quiet [of "trace s0"] heap_quiet_copies [of "trace s0"]
    by (simp add: startup_ok_def)
  from main_loop_iterate_copies [OF ok, of evs]
  obtain k where ih: "k \<le> length (published_planes evs)
    \<and> copies (trace (snd (main_loop_iterate evs ?s1)))
        = copies (trace ?s1) @ map clamped_count (take k (published_planes evs))
    \<and> (fst (main_loop_iterate evs ?s1) = Blocked \<longrightarrow> k = length (published_planes evs))" ..
  have a1: "k \<le> length (published_planes evs)" by (rule ih [THEN conjunct1])
  have a2: "copies (trace (snd (main e evs)))
      = map clamped_count (take k (published_planes evs))"
    unfolding looped(5) using ih [THEN conjunct2, THEN conjunct1] none by simp
  have a3: "fst (main e evs) = Running \<longrightarrow> k = length (published_planes evs)"
  proof
    assume "fst (main e evs) = Running"
    then have "fst (main_loop_iterate evs ?s1) = Blocked"
      unfolding looped(6) by (cases "fst (main_loop_iterate evs ?s1)") simp_all
    then show "k = length (published_planes evs)"
      using ih [THEN conjunct2, THEN conjunct2] by simp
  qed
  show ?thesis
    by (rule exI [of _ k], intro conjI) (fact a1, fact a2, fact a3)
qed

lemma growing_run:
  "main demo_env growing_events =
    (Crashed,
     demo_loop_state\<lparr>frame := Some [9, 9], bytes_used := 4,
       fault := Some Write_out_of_bounds,
       trace := demo_trace @
         [G_main_loop_run, Malloc 2, Memcpy_to_frame 2, Request_reuse, Camera_queueRequest,
          Memcpy_to_frame 4]\<rparr>)"
proof -
  have cc: "clamped_count small_plane = 2" "clamped_count demo_plane = 4"
    by (simp_all add: clamped_count_def small_plane_def demo_plane_def)
  have 1: "requestComplete small_request demo_loop_state =
      demo_loop_state\<lparr>frame := Some [9, 9], bytes_used := 2,
        trace := demo_trace @
          [G_main_loop_run, Malloc 2, Memcpy_to_frame 2, Request_reuse, Camera_queueRequest]\<rparr>"
  proof -
    have "publish_plane small_plane demo_loop_state =
        demo_loop_state\<lparr>bytes_used := 2, frame := Some [9, 9],
          trace := demo_trace @ [G_main_loop_run, Malloc 2, Memcpy_to_frame 2]\<rparr>"
      by (simp add: publish_plane_fresh cc) (simp add: small_plane_def)
    then show ?thesis
      by (simp add: requestComplete_def small_request_def publish_buffer_def act_def)
  qed
  let ?s1 = "demo_loop_state\<lparr>frame := Some [9, 9], bytes_used := 2,
        trace := demo_trace @
          [G_main_loop_run, Malloc 2, Memcpy_to_frame 2, Request_reuse, Camera_queueRequest]\<rparr>"
  have 2: "requestComplete demo_request ?s1 =
      demo_loop_state\<lparr>frame := Some [9, 9], bytes_used := 4,
        fault := Some Write_out_of_bounds,
        trace := demo_trace @
          [G_main_loop_run, Malloc 2, Memcpy_to_frame 2, Request_reuse, Camera_queueRequest,
           Memcpy_to_frame 4]\<rparr>"
  proof -
    have "publish_plane demo_plane ?s1 =
        demo_loop_state\<lparr>frame := Some [9, 9], bytes_used := 4,
          fault := Some Write_out_of_bounds,
          trace := demo_trace @
            [G_main_loop_run, Malloc 2, Memcpy_to_frame 2, Request_reuse, Camera_queueRequest,
             Memcpy_to_frame 4]\<rparr>"
      by (simp add: publish_plane_overflow [where f = "[9, 9]"] cc)
        (simp add: demo_plane_def demo_loop_state_def)
    then show ?thesis
      by (simp add: requestComplete_def demo_request_def publish_buffer_def)
  qed
  show ?thesis
    by (simp add: demo_main growing_events_def dispatch_def 1 2)
qed

text \<open>
  C9: in every run of \<open>main\<close>, with \<open>planes\<close> the planes of all requests that complete
  with status Complete, in order, and \<open>s\<close> the state the run ends in. The copies into the
  frame region are those of the first \<open>k\<close> planes, each of its plane's clamped byte count,
  and of all the planes while the run is still in its loop. There is no \<open>malloc\<close>
  before the first copy and exactly one from then on, made before that copy and sized to
  the first plane's clamped count. The region has that size at the end of the run, however
  many planes have been copied into it since: it is never resized. The copies all fit the
  region unless the run has ended in a write past it, and then the last copy is the one
  that was larger than the region: also that publication is a copy of its clamped count
  to the same region. \<open>push_frame\<close> leaves the region alone, and the source has no
  \<open>free\<close> and no \<open>realloc\<close>.
\<close>

theorem frame_region_allocated_once:
  assumes "planes = published_planes evs" and "s = snd (main e evs)"
  shows "\<exists>k\<le>length planes.
      copies (trace s) = map clamped_count (take k planes)
    \<and> allocations (trace s) = map clamped_count (take 1 (take k planes))
    \<and> heap_actions (trace s)
        = map Malloc (allocations (trace s)) @ map Memcpy_to_frame (copies (trace s))
    \<and> (fst (main e evs) = Running \<longrightarrow> k = length planes)
    \<and> (case frame s of
          None \<Rightarrow> k = 0
        | Some f \<Rightarrow>
            0 < k \<and> length f = clamped_count (hd planes)
            \<and> (fault s = None \<longrightarrow> list_all (\<lambda>n. n \<le> length f) (copies (trace s)))
            \<and> (fault s = Some Write_out_of_bounds \<longrightarrow> length f < last (copies (trace s))))
    \<and> frame (snd (push_frame r s')) = frame s'"
proof -
  from main_copies [of evs e]
  obtain k where ih: "k \<le> length (published_planes evs)
    \<and> copies (trace (snd (main e evs))) = map clamped_count (take k (published_planes evs))
    \<and> (fst (main e evs) = Running \<longrightarrow> k = length (published_planes evs))" ..
  have k: "k \<le> length planes" unfolding assms(1) by (rule ih [THEN conjunct1])
  have c: "copies (trace s) = map clamped_count (take k planes)"
    unfolding assms by (rule ih [THEN conjunct2, THEN conjunct1])
  have full: "fst (main e evs) = Running \<longrightarrow> k = length planes"
    unfolding assms(1) by (rule ih [THEN conjunct2, THEN conjunct2])
  have hi: "heap_inv s" unfolding assms(2) by (rule heap_inv_main)
  note ho = heap_observers [of "trace s"]
  have pump: "frame (snd (push_frame r s')) = frame s'"
  proof (cases "frame s'")
    case None
    then show ?thesis by (simp add: push_frame_null)
  next
    case (Some f)
    then show ?thesis
      by (cases "bytes_used s' \<le> length f")
        (simp_all add: push_frame_pushes push_frame_out_of_bounds)
  qed
  have rest: "allocations (trace s) = map clamped_count (take 1 (take k planes))
    \<and> heap_actions (trace s)
        = map Malloc (allocations (trace s)) @ map Memcpy_to_frame (copies (trace s))
    \<and> (case frame s of
          None \<Rightarrow> k = 0
        | Some f \<Rightarrow>
            0 < k \<and> length f = clamped_count (hd planes)
            \<and> (fault s = None \<longrightarrow> list_all (\<lambda>n. n \<le> length f) (copies (trace s)))
            \<and> (fault s = Some Write_out_of_bounds \<longrightarrow> length f < last (copies (trace s))))"
  proof (cases "frame s")
    case None
    have h: "heap_actions (trace s) = []" using hi None by (simp add: heap_inv_def)
    have c0: "copies (trace s) = []" and a0: "allocations (trace s) = []"
      using ho h by simp_all
    have "take k planes = []" using c c0 by simp
    then have k0: "k = 0" using k by (cases planes; cases k) simp_all
    show ?thesis using None h c0 a0 k0 by simp
  next
    case (Some f)
    obtain ns where ns: "heap_actions (trace s) =
           Malloc (length f) # Memcpy_to_frame (length f) # map Memcpy_to_frame ns"
      and fit: "fault s = None \<longrightarrow> list_all (\<lambda>m. m \<le> length f) ns"
      and over: "fault s = Some Write_out_of_bounds \<longrightarrow> ns \<noteq> [] \<and> length f < last ns"
      using hi Some by (rule heap_inv_SomeD)
    have c1: "copies (trace s) = length f # ns"
      using ho ns by (simp add: observers_Cons(1) [of "Malloc (length f)"]
          observers_Cons(1) [of "Memcpy_to_frame (length f)"])
    have a1: "allocations (trace s) = [length f]"
      using ho ns by (simp add: observers_Cons(2) [of "Malloc (length f)"]
          observers_Cons(2) [of "Memcpy_to_frame (length f)"])
    have ne: "take k planes \<noteq> []"
    proof
      assume "take k planes = []"
      with c c1 show False by simp
    qed
    have pos: "0 < k" using ne by (cases k) simp_all
    have pne: "planes \<noteq> []" using ne by (cases planes) simp_all
    then obtain p ps where pl: "planes = p # ps" by (cases planes) simp_all
    obtain j where kj: "k = Suc j" using pos by (cases k) simp_all
    have hd: "length f = clamped_count (hd planes)"
      using c c1 by (simp add: pl kj)
    have t1: "map clamped_count (take 1 (take k planes)) = [length f]"
      using hd by (simp add: pl kj)
    have l: "last (length f # ns) = last ns" if "ns \<noteq> []" using that by simp
    show ?thesis
      unfolding c1 a1 t1 using Some ns pos hd fit over l by simp
  qed
  show ?thesis
    by (rule exI [of _ k], intro conjI)
      (fact k, fact c, fact rest [THEN conjunct1],
       fact rest [THEN conjunct2, THEN conjunct1], fact full,
       fact rest [THEN conjunct2, THEN conjunct2], fact pump)
qed

theorem frame_region_allocated_once_witness:
  "published_planes demo_events = [demo_plane]
   \<and> fst (main demo_env demo_events) = Running
   \<and> copies (trace (snd (main demo_env demo_events))) = [4]
   \<and> allocations (trace (snd (main demo_env demo_events))) = [4]
   \<and> frame (snd (main demo_env demo_events)) = Some [1, 2, 3, 4]
   \<and> published_planes growing_events = [small_plane, demo_plane]
   \<and> fst (main demo_env growing_events) = Crashed
   \<and> fault (snd (main demo_env growing_events)) = Some Write_out_of_bounds
   \<and> copies (trace (snd (main demo_env growing_events))) = [2, 4]
   \<and> allocations (trace (snd (main demo_env growing_events))) = [2]
   \<and> frame (snd (main demo_env growing_events)) = Some [9, 9]
   \<and> clamped_count small_plane = 2 \<and> clamped_count demo_plane = 4"
proof -
  have q: "copies demo_trace = []" "allocations demo_trace = []"
    using heap_observers [of demo_trace] by (simp_all add: demo_trace_quiet)
  have a: "published_planes demo_events = [demo_plane]"
    "published_planes growing_events = [small_plane, demo_plane]"
    by (simp_all add: demo_events_def growing_events_def demo_request_def small_request_def)
  have b: "fst (main demo_env demo_events) = Running"
    "copies (trace (snd (main demo_env demo_events))) = [4]"
    "allocations (trace (snd (main demo_env demo_events))) = [4]"
    "frame (snd (main demo_env demo_events)) = Some [1, 2, 3, 4]"
    by (simp_all add: demo_run q)
  have c: "fst (main demo_env growing_events) = Crashed"
    "fault (snd (main demo_env growing_events)) = Some Write_out_of_bounds"
    "copies (trace (snd (main demo_env growing_events))) = [2, 4]"
    "allocations (trace (snd (main demo_env growing_events))) = [2]"
    "frame (snd (main demo_env growing_events)) = Some [9, 9]"
    by (simp_all add: growing_run q)
  have d: "clamped_count small_plane = 2" "clamped_count demo_plane = 4"
    by (simp_all add: clamped_count_def small_plane_def demo_plane_def)
  from frame_region_allocated_once [OF refl refl, of demo_events demo_env]
       frame_region_allocated_once [OF refl refl, of growing_events demo_env]
       a b c d
  show ?thesis by simp
qed

end
